theory Spec2Isabelle
  imports Complex_Main "HOL-Library.Word" "HOL-Library.Monad_Syntax"
begin

section \<open>The B-tree of \<^verbatim>\<open>sqlite-btree-analysis/src/btree.c\<close>\<close>

text \<open>
  This theory embeds the B-tree of \<^verbatim>\<open>btree.h\<close> and \<^verbatim>\<open>btree.c\<close> and settles the
  properties stated about it. Conventions of the embedding:

  \<^item> A C array is a list of its capacity (what \<^verbatim>\<open>calloc\<close> returned, zero filled); the
    entries past \<^verbatim>\<open>num_keys\<close> stay in the list exactly as the C code leaves them. A null
    array pointer (\<^verbatim>\<open>values\<close> of an internal node, \<^verbatim>\<open>children\<close> of a leaf) is the
    empty list.
  \<^item> Every function whose C text reads or writes an array element, or dereferences a node
    pointer, returns an \<open>option\<close>: \<open>None\<close> is C's undefined behaviour (an index outside
    the array, a null node pointer). \<open>rd\<close> and \<open>wr\<close> are the only array accesses.
  \<^item> The nodes of a tree are owned by exactly one parent, so a node pointer is the node
    itself (\<open>None\<close> for \<^verbatim>\<open>NULL\<close>) and a function that mutates a node returns the new node.
  \<^item> \<^verbatim>\<open>btree_key_t\<close> (\<^verbatim>\<open>int64_t\<close>) is \<open>int\<close>: keys are only compared and copied, never
    computed with. \<^verbatim>\<open>btree_value_t\<close> (\<^verbatim>\<open>void*\<close>) is a 64-bit word. The \<^verbatim>\<open>uint64_t\<close>
    counters are 64-bit words (they wrap), \<^verbatim>\<open>height\<close> is a 32-bit word. \<^verbatim>\<open>order\<close>,
    \<^verbatim>\<open>min_keys\<close> and \<^verbatim>\<open>num_keys\<close> (\<^verbatim>\<open>uint32_t\<close>) are naturals below \<open>2\<^sup>3\<^sup>2\<close>, with the
    wrap-around of unsigned arithmetic written out (\<open>u32_sub\<close>, \<open>u32_inc\<close>) and the cast
    to \<^verbatim>\<open>int\<close> as two's complement (\<open>int_of_u32\<close>). Indices of type \<^verbatim>\<open>int\<close> are
    integers; the one sum of two of them, \<^verbatim>\<open>lwr + upr\<close> in \<^verbatim>\<open>node_binary_search\<close>, is
    undefined when it overflows 32 bits. An index applied to an array leaves the range
    of \<^verbatim>\<open>int\<close> only after it has left the array, which has at most 1024 entries.
  \<^item> \<^verbatim>\<open>calloc\<close> succeeds: \<^verbatim>\<open>node_create\<close> always returns a node, so the
    \<^verbatim>\<open>BTREE_ERROR_NOMEM\<close> returns are not reached. The \<^verbatim>\<open>double avg_fill_factor\<close> of
    the statistics block is left out (it is only computed by \<^verbatim>\<open>btree_stats_get\<close>).
\<close>

subsection \<open>Types of \<^verbatim>\<open>btree.h\<close>\<close>

type_synonym btree_key_t = int
type_synonym btree_value_t = "64 word"
type_synonym u64 = "64 word"
type_synonym u32 = "32 word"

datatype btree_status_t =
    BTREE_OK
  | BTREE_ERROR_NOMEM
  | BTREE_ERROR_NOT_FOUND
  | BTREE_ERROR_DUPLICATE
  | BTREE_ERROR_INVALID
  | BTREE_ERROR_CORRUPT

record btree_stats_t =
  node_count :: u64
  key_count :: u64
  height :: u32
  comparisons :: u64
  node_visits :: u64
  splits :: u64
  merges :: u64
  search_ops :: u64
  insert_ops :: u64
  delete_ops :: u64

datatype btree_node_t =
  Node (keys: "btree_key_t list") (vals: "btree_value_t list")
       (children: "btree_node_t option list") (num_keys: nat) (is_leaf: bool)

record btree_t =
  root :: "btree_node_t option"
  order :: nat
  min_keys :: nat
  stats :: btree_stats_t
  collect_stats :: bool

record btree_cursor_t =
  ctree :: btree_t
  path :: "btree_node_t option list"
  positions :: "int list"
  depth :: int
  max_depth :: int
  valid :: bool

subsection \<open>Arrays, unsigned subtraction, loops\<close>

definition rd :: "'a list \<Rightarrow> int \<Rightarrow> 'a option" where
  "rd a i = (if 0 \<le> i \<and> i < int (length a) then Some (a ! nat i) else None)"

definition wr :: "'a list \<Rightarrow> int \<Rightarrow> 'a \<Rightarrow> 'a list option" where
  "wr a i v = (if 0 \<le> i \<and> i < int (length a) then Some (a[nat i := v]) else None)"

definition u32_sub :: "nat \<Rightarrow> nat \<Rightarrow> nat" where
  "u32_sub a b = (a + 2 ^ 32 - b mod 2 ^ 32) mod 2 ^ 32"

definition u32_inc :: "nat \<Rightarrow> nat" where
  "u32_inc a = (a + 1) mod 2 ^ 32"

definition int_of_u32 :: "nat \<Rightarrow> int" where
  "int_of_u32 a = (if a < 2 ^ 31 then int a else int a - 2 ^ 32)"

text \<open>A \<^verbatim>\<open>for\<close> loop whose bounds are fixed before it starts: the body runs on each index
  in turn, and undefined behaviour in one iteration ends the loop.\<close>

primrec fold_opt :: "('i \<Rightarrow> 's \<Rightarrow> 's option) \<Rightarrow> 'i list \<Rightarrow> 's \<Rightarrow> 's option" where
  "fold_opt body [] s = Some s"
| "fold_opt body (i # is) s = (case body i s of None \<Rightarrow> None | Some s' \<Rightarrow> fold_opt body is s')"

text \<open>A \<^verbatim>\<open>for\<close> loop that returns \<^verbatim>\<open>false\<close> from the function at the first index whose check
  fails.\<close>

primrec all_opt :: "('i \<Rightarrow> bool option) \<Rightarrow> 'i list \<Rightarrow> bool option" where
  "all_opt check [] = Some True"
| "all_opt check (i # is) =
     (case check i of None \<Rightarrow> None | Some False \<Rightarrow> Some False | Some True \<Rightarrow> all_opt check is)"

text \<open>Assignments to one field of a node.\<close>

definition set_keys :: "btree_node_t \<Rightarrow> btree_key_t list \<Rightarrow> btree_node_t" where
  "set_keys n ks = Node ks (vals n) (children n) (num_keys n) (is_leaf n)"

definition set_vals :: "btree_node_t \<Rightarrow> btree_value_t list \<Rightarrow> btree_node_t" where
  "set_vals n vs = Node (keys n) vs (children n) (num_keys n) (is_leaf n)"

definition set_children :: "btree_node_t \<Rightarrow> btree_node_t option list \<Rightarrow> btree_node_t" where
  "set_children n cs = Node (keys n) (vals n) cs (num_keys n) (is_leaf n)"

definition set_num_keys :: "btree_node_t \<Rightarrow> nat \<Rightarrow> btree_node_t" where
  "set_num_keys n k = Node (keys n) (vals n) (children n) k (is_leaf n)"

subsection \<open>Internal helpers\<close>

text \<open>\<^verbatim>\<open>node_create\<close>: \<^verbatim>\<open>order - 1\<close> keys, and \<^verbatim>\<open>order - 1\<close> values (leaf) or \<^verbatim>\<open>order\<close>
  child pointers (internal), all zero.\<close>

definition node_create :: "nat \<Rightarrow> bool \<Rightarrow> btree_node_t" where
  "node_create ord leaf =
     (if leaf then Node (replicate (u32_sub ord 1) 0) (replicate (u32_sub ord 1) 0) [] 0 True
      else Node (replicate (u32_sub ord 1) 0) [] (replicate ord None) 0 False)"

text \<open>\<^verbatim>\<open>node_binary_search\<close>. The \<^verbatim>\<open>comparisons\<close> pointer (\<open>cmps\<close>) is \<open>None\<close> when null and
  the counter's value otherwise; the counter is returned. \<^verbatim>\<open>*found\<close> is the returned flag.
  \<^verbatim>\<open>(lwr + upr) >> 1\<close> is taken on a sum that is never negative inside the loop; when the
  sum exceeds \<^verbatim>\<open>INT_MAX\<close> the signed addition is undefined.\<close>

function node_binary_search_loop ::
  "btree_key_t list \<Rightarrow> btree_key_t \<Rightarrow> int \<Rightarrow> int \<Rightarrow> u64 option
     \<Rightarrow> (int \<times> bool \<times> u64 option) option" where
  "node_binary_search_loop ks key lwr upr cmps =
     (if lwr \<le> upr then
        (let mid = (lwr + upr) div 2;
             cmps' = map_option (\<lambda>c. c + 1) cmps
         in case (if lwr + upr > 2147483647 then None else rd ks mid) of
              None \<Rightarrow> None
            | Some km \<Rightarrow>
                if km < key then node_binary_search_loop ks key (mid + 1) upr cmps'
                else if km > key then node_binary_search_loop ks key lwr (mid - 1) cmps'
                else Some (mid, True, cmps'))
      else Some (lwr, False, cmps))"
  by pat_completeness auto
termination
  by (relation "measure (\<lambda>(ks, key, lwr, upr, c). nat (upr - lwr + 1))") auto

declare node_binary_search_loop.simps [simp del]

definition node_binary_search ::
  "btree_node_t \<Rightarrow> btree_key_t \<Rightarrow> u64 option \<Rightarrow> (int \<times> bool \<times> u64 option) option" where
  "node_binary_search node key cmps =
     node_binary_search_loop (keys node) key 0 (int_of_u32 (num_keys node) - 1) cmps"

text \<open>The keys a node holds: the first \<^verbatim>\<open>num_keys\<close> entries of its key array.\<close>

definition live_keys :: "btree_node_t \<Rightarrow> btree_key_t list" where
  "live_keys node = take (num_keys node) (keys node)"

subsection \<open>A measure for the recursion over nodes\<close>

text \<open>The recursive functions below descend from a node to one of the entries of its child
  array. \<open>hgt\<close> counts the levels below a node over every entry of the array.\<close>

fun hgt :: "btree_node_t \<Rightarrow> nat" where
  "hgt (Node ks vs cs n l) =
     Suc (Max (set (0 # map (\<lambda>c. case c of None \<Rightarrow> 0 | Some x \<Rightarrow> hgt x) cs)))"

definition hgt_o :: "btree_node_t option \<Rightarrow> nat" where
  "hgt_o c = (case c of None \<Rightarrow> 0 | Some x \<Rightarrow> hgt x)"

definition cbound :: "btree_node_t option list \<Rightarrow> nat" where
  "cbound cs = Max (set (0 # map hgt_o cs))"

lemma hgt_eq: "hgt n = Suc (cbound (children n))"
  by (cases n) (simp add: cbound_def hgt_o_def[abs_def])

lemma cbound_ge: "c \<in> set cs \<Longrightarrow> hgt_o c \<le> cbound cs"
  by (simp add: cbound_def)

lemma cbound_le: "(\<And>c. c \<in> set cs \<Longrightarrow> hgt_o c \<le> H) \<Longrightarrow> cbound cs \<le> H"
  by (auto simp: cbound_def)

lemma rd_in_set: "rd a i = Some x \<Longrightarrow> x \<in> set a"
  by (auto simp: rd_def split: if_splits)

lemma wr_set: "wr a i v = Some a' \<Longrightarrow> set a' \<subseteq> insert v (set a)"
  by (auto simp: wr_def split: if_splits dest: set_update_subset_insert[THEN subsetD])

lemma rd_child_hgt: "rd (children n) i = Some c \<Longrightarrow> hgt_o c < hgt n"
  using cbound_ge[OF rd_in_set] by (fastforce simp: hgt_eq)

lemma fold_opt_invariant:
  assumes "fold_opt body xs s = Some s'" "P s"
    and "\<And>i t t'. P t \<Longrightarrow> body i t = Some t' \<Longrightarrow> P t'"
  shows "P s'"
  using assms(1,2)
proof (induction xs arbitrary: s)
  case Nil
  then show ?case by simp
next
  case (Cons x xs)
  then show ?case using assms(3) by (auto split: option.splits)
qed

text \<open>\<^verbatim>\<open>node_binary_search(node, key, &found,
  tree->collect_stats ? &tree->stats.comparisons : NULL)\<close>, the call as \<^verbatim>\<open>insert_nonfull\<close>
  and \<^verbatim>\<open>btree_search\<close> write it.\<close>

definition tree_binary_search ::
  "btree_t \<Rightarrow> btree_node_t \<Rightarrow> btree_key_t \<Rightarrow> (int \<times> bool \<times> btree_t) option" where
  "tree_binary_search tree node key = do {
     (pos, found, cmps) \<leftarrow> node_binary_search node key
        (if collect_stats tree then Some (comparisons (stats tree)) else None);
     Some (pos, found,
       (case cmps of None \<Rightarrow> tree
        | Some c \<Rightarrow> tree\<lparr>stats := (stats tree)\<lparr>comparisons := c\<rparr>\<rparr>))
   }"

text \<open>\<^verbatim>\<open>if (tree->collect_stats) tree->stats.node_visits++\<close>.\<close>

definition count_visit :: "btree_t \<Rightarrow> btree_t" where
  "count_visit tree =
     (if collect_stats tree
      then tree\<lparr>stats := (stats tree)\<lparr>node_visits := node_visits (stats tree) + 1\<rparr>\<rparr>
      else tree)"

text \<open>The loops of \<^verbatim>\<open>split_child\<close>:
  \<^verbatim>\<open>for (uint32_t i = 0; i < new_node->num_keys; i++) {
      new_node->keys[i] = child->keys[mid + 1 + i];
      if (child->is_leaf) new_node->values[i] = child->values[mid + 1 + i]; }\<close>\<close>

definition copy_upper_keys :: "btree_node_t \<Rightarrow> nat \<Rightarrow> btree_node_t \<Rightarrow> btree_node_t option" where
  "copy_upper_keys child mid new_node =
     fold_opt (\<lambda>i nn. do {
         k \<leftarrow> rd (keys child) (int (mid + 1 + i));
         ks \<leftarrow> wr (keys nn) (int i) k;
         let nn = set_keys nn ks;
         if is_leaf child then do {
           v \<leftarrow> rd (vals child) (int (mid + 1 + i));
           vs \<leftarrow> wr (vals nn) (int i) v;
           Some (set_vals nn vs)
         } else Some nn
       }) [0..<num_keys new_node] new_node"

text \<open>\<^verbatim>\<open>for (uint32_t i = 0; i <= new_node->num_keys; i++)
      new_node->children[i] = child->children[mid + 1 + i];\<close>\<close>

definition copy_upper_children ::
  "btree_node_t \<Rightarrow> nat \<Rightarrow> btree_node_t \<Rightarrow> btree_node_t option" where
  "copy_upper_children child mid new_node =
     fold_opt (\<lambda>i nn. do {
         c \<leftarrow> rd (children child) (int (mid + 1 + i));
         cs \<leftarrow> wr (children nn) (int i) c;
         Some (set_children nn cs)
       }) [0..<Suc (num_keys new_node)] new_node"

text \<open>\<^verbatim>\<open>for (int i = (int)parent->num_keys; i > child_idx; i--)
      parent->children[i + 1] = parent->children[i];\<close>\<close>

definition shift_children :: "btree_node_t \<Rightarrow> int \<Rightarrow> btree_node_t option" where
  "shift_children parent child_idx =
     fold_opt (\<lambda>i p. do {
         c \<leftarrow> rd (children p) i;
         cs \<leftarrow> wr (children p) (i + 1) c;
         Some (set_children p cs)
       }) (rev [child_idx + 1..int_of_u32 (num_keys parent)]) parent"

text \<open>\<^verbatim>\<open>for (int i = (int)parent->num_keys - 1; i >= child_idx; i--)
      parent->keys[i + 1] = parent->keys[i];\<close>\<close>

definition shift_keys :: "btree_node_t \<Rightarrow> int \<Rightarrow> btree_node_t option" where
  "shift_keys parent child_idx =
     fold_opt (\<lambda>i p. do {
         k \<leftarrow> rd (keys p) i;
         ks \<leftarrow> wr (keys p) (i + 1) k;
         Some (set_keys p ks)
       }) (rev [child_idx..int_of_u32 (num_keys parent) - 1]) parent"

text \<open>\<^verbatim>\<open>split_child\<close>. Both callers pass \<^verbatim>\<open>child = parent->children[child_idx]\<close>; the
  assignment \<^verbatim>\<open>child->num_keys = mid\<close> through that pointer is the last write to
  \<open>children parent\<close> below.\<close>

definition split_child ::
  "btree_t \<Rightarrow> btree_node_t \<Rightarrow> int \<Rightarrow> btree_node_t
     \<Rightarrow> (btree_status_t \<times> btree_t \<times> btree_node_t) option" where
  "split_child tree parent child_idx child = do {
     let ord = order tree;
     let mid = u32_sub ord 1 div 2;
     let new_node = node_create ord (is_leaf child);
     let new_node = set_num_keys new_node (u32_sub (u32_sub (num_keys child) mid) 1);
     new_node \<leftarrow> copy_upper_keys child mid new_node;
     new_node \<leftarrow> (if \<not> is_leaf child then copy_upper_children child mid new_node
                  else Some new_node);
     let child = set_num_keys child mid;
     parent \<leftarrow> shift_children parent child_idx;
     cs \<leftarrow> wr (children parent) (child_idx + 1) (Some new_node);
     let parent = set_children parent cs;
     parent \<leftarrow> shift_keys parent child_idx;
     km \<leftarrow> rd (keys child) (int mid);
     ks \<leftarrow> wr (keys parent) child_idx km;
     let parent = set_keys parent ks;
     let parent = set_num_keys parent (u32_inc (num_keys parent));
     cs \<leftarrow> wr (children parent) child_idx (Some child);
     let parent = set_children parent cs;
     let tree = tree\<lparr>stats := (stats tree)\<lparr>node_count := node_count (stats tree) + 1,
                                            splits := splits (stats tree) + 1\<rparr>\<rparr>;
     Some (BTREE_OK, tree, parent)
   }"

text \<open>The loop of \<^verbatim>\<open>insert_nonfull\<close> that makes room in a leaf:
  \<^verbatim>\<open>for (i = (int)node->num_keys - 1; i >= pos; i--) {
      node->keys[i + 1] = node->keys[i]; node->values[i + 1] = node->values[i]; }\<close>\<close>

definition shift_leaf :: "btree_node_t \<Rightarrow> int \<Rightarrow> btree_node_t option" where
  "shift_leaf node pos =
     fold_opt (\<lambda>i n. do {
         k \<leftarrow> rd (keys n) i;
         ks \<leftarrow> wr (keys n) (i + 1) k;
         let n = set_keys n ks;
         v \<leftarrow> rd (vals n) i;
         vs \<leftarrow> wr (vals n) (i + 1) v;
         Some (set_vals n vs)
       }) (rev [pos..int_of_u32 (num_keys node) - 1]) node"

text \<open>\<^verbatim>\<open>insert_nonfull\<close>, the branch of a leaf.\<close>

definition insert_leaf ::
  "btree_t \<Rightarrow> btree_node_t \<Rightarrow> btree_key_t \<Rightarrow> btree_value_t
     \<Rightarrow> (btree_status_t \<times> btree_t \<times> btree_node_t) option" where
  "insert_leaf tree node key val = do {
     (pos, found, tree) \<leftarrow> tree_binary_search tree node key;
     if found then do {
       vs \<leftarrow> wr (vals node) pos val;
       Some (BTREE_OK, tree, set_vals node vs)
     } else do {
       node \<leftarrow> shift_leaf node pos;
       ks \<leftarrow> wr (keys node) pos key;
       vs \<leftarrow> wr (vals node) pos val;
       let node = set_num_keys (set_vals (set_keys node ks) vs) (u32_inc (num_keys node));
       let tree = tree\<lparr>stats := (stats tree)\<lparr>key_count := key_count (stats tree) + 1\<rparr>\<rparr>;
       Some (BTREE_OK, tree, node)
     }
   }"

text \<open>\<^verbatim>\<open>insert_nonfull\<close>, the branch of an internal node up to the recursive call: the child
  to descend into, after splitting it when it is full. The status is that of
  \<^verbatim>\<open>split_child\<close>.\<close>

definition insert_descend ::
  "btree_t \<Rightarrow> btree_node_t \<Rightarrow> btree_key_t
     \<Rightarrow> (btree_status_t \<times> btree_t \<times> btree_node_t \<times> int) option" where
  "insert_descend tree node key = do {
     (pos, found, tree) \<leftarrow> tree_binary_search tree node key;
     let pos = (if found then pos + 1 else pos);
     c \<leftarrow> rd (children node) pos;
     child \<leftarrow> c;
     if num_keys child = u32_sub (order tree) 1 then do {
       (status, tree, node) \<leftarrow> split_child tree node pos child;
       if status \<noteq> BTREE_OK then Some (status, tree, node, pos)
       else do {
         k \<leftarrow> rd (keys node) pos;
         Some (BTREE_OK, tree, node, if key > k then pos + 1 else pos)
       }
     } else Some (BTREE_OK, tree, node, pos)
   }"

lemma set_children_simps [simp]:
  "children (set_children n cs) = cs"
  "children (set_keys n ks) = children n"
  "children (set_vals n vs) = children n"
  "children (set_num_keys n k) = children n"
  by (simp_all add: set_children_def set_keys_def set_vals_def set_num_keys_def)

lemma children_node_create: "c \<in> set (children (node_create ord l)) \<Longrightarrow> c = None"
  by (auto simp: node_create_def split: if_splits)

definition cs_le :: "nat \<Rightarrow> btree_node_t \<Rightarrow> bool" where
  "cs_le H n = (\<forall>c \<in> set (children n). hgt_o c \<le> H)"

lemma hgt_le: "cs_le H n \<Longrightarrow> hgt n \<le> Suc H"
  by (simp add: hgt_eq cs_le_def cbound_le)

lemma cs_le_cbound: "cs_le (cbound (children n)) n"
  by (simp add: cs_le_def cbound_ge)

lemma cs_le_wr:
  "cs_le H n \<Longrightarrow> hgt_o c \<le> H \<Longrightarrow> wr (children n) i c = Some cs \<Longrightarrow> cs_le H (set_children n cs)"
  using wr_set by (fastforce simp: cs_le_def)

lemma cs_le_rd: "cs_le H n \<Longrightarrow> rd (children n) i = Some c \<Longrightarrow> hgt_o c \<le> H"
  by (auto simp: cs_le_def dest: rd_in_set)

lemma copy_upper_keys_cs_le:
  "copy_upper_keys child mid nn = Some nn' \<Longrightarrow> cs_le H nn \<Longrightarrow> cs_le H nn'"
  unfolding copy_upper_keys_def
  by (erule fold_opt_invariant) (auto simp: cs_le_def Let_def split: Option.bind_splits if_splits)

lemma copy_upper_children_cs_le:
  "copy_upper_children child mid nn = Some nn' \<Longrightarrow> cs_le H child \<Longrightarrow> cs_le H nn \<Longrightarrow> cs_le H nn'"
  unfolding copy_upper_children_def
  by (erule fold_opt_invariant)
     (auto split: Option.bind_splits intro: cs_le_wr cs_le_rd)

lemma shift_children_cs_le:
  "shift_children p i = Some p' \<Longrightarrow> cs_le H p \<Longrightarrow> cs_le H p'"
  unfolding shift_children_def
  by (erule fold_opt_invariant)
     (auto split: Option.bind_splits intro: cs_le_wr cs_le_rd)

lemma shift_keys_cs_le:
  "shift_keys p i = Some p' \<Longrightarrow> cs_le H p \<Longrightarrow> cs_le H p'"
  unfolding shift_keys_def
  by (erule fold_opt_invariant) (auto simp: cs_le_def split: Option.bind_splits)

lemma cs_le_set [simp]:
  "cs_le H (set_keys n ks) = cs_le H n"
  "cs_le H (set_vals n vs) = cs_le H n"
  "cs_le H (set_num_keys n k) = cs_le H n"
  by (simp_all add: cs_le_def)

lemma hgt_set [simp]:
  "hgt (set_keys n ks) = hgt n"
  "hgt (set_vals n vs) = hgt n"
  "hgt (set_num_keys n k) = hgt n"
  by (simp_all add: hgt_eq)

lemma split_child_hgt:
  assumes "split_child tree parent child_idx child = Some (st, tree', parent')"
    and "cs_le H parent" "hgt child \<le> H"
  shows "cs_le H parent'"
proof -
  have child: "cs_le (H - 1) child"
    using assms(3) cs_le_cbound[of child] by (auto simp: hgt_eq cs_le_def)
  have new0: "cs_le (H - 1) (set_num_keys (node_create (order tree) (is_leaf child)) k)" for k
    by (auto simp: cs_le_def hgt_o_def dest!: children_node_create)
  have up: "hgt_o (Some n) \<le> H" if "cs_le (H - 1) n" for n
    using hgt_le[OF that] assms(3) by (cases child) (auto simp: hgt_o_def)
  have ch: "hgt_o (Some (set_num_keys child k)) \<le> H" for k
    using assms(3) by (simp add: hgt_o_def)
  show ?thesis
    using assms(1)
    apply (simp add: split_child_def Let_def split: Option.bind_splits)
    apply (elim exE conjE)
    subgoal premises prems for n1 n2 p1 cs1 p2 km ks cs2
    proof -
      have "cs_le (H - 1) n1" using copy_upper_keys_cs_le[OF prems(1) new0] .
      then have "cs_le (H - 1) n2"
        using prems(2) child by (auto split: if_splits intro: copy_upper_children_cs_le)
      then have hn2: "hgt_o (Some n2) \<le> H" by (rule up)
      have "cs_le H p1" using shift_children_cs_le[OF prems(3) assms(2)] .
      then have "cs_le H (set_children p1 cs1)" using cs_le_wr[OF _ hn2 prems(4)] by simp
      then have "cs_le H p2" using shift_keys_cs_le[OF prems(5)] by simp
      then have "cs_le H (set_children p2 cs2)" using cs_le_wr[OF _ ch prems(8)] by simp
      then show ?thesis using prems by (auto simp: cs_le_def)
    qed
    done
qed

lemma insert_descend_hgt:
  assumes "insert_descend tree node key = Some (st, tree', node', pos)"
  shows "cs_le (cbound (children node)) node'"
proof -
  have base: "cs_le (cbound (children node)) node" by (rule cs_le_cbound)
  have sc: "cs_le (cbound (children node)) n'"
    if "split_child t node i c = Some (s, t', n')" "rd (children node) i = Some (Some c)"
    for t i c s t' n'
    using split_child_hgt[OF that(1) base] cs_le_rd[OF base that(2)] by (simp add: hgt_o_def)
  show ?thesis
    using assms base
    by (auto simp: insert_descend_def Let_def
             split: Option.bind_splits if_splits prod.splits dest: sc)
qed

function insert_nonfull ::
  "btree_t \<Rightarrow> btree_node_t \<Rightarrow> btree_key_t \<Rightarrow> btree_value_t
     \<Rightarrow> (btree_status_t \<times> btree_t \<times> btree_node_t) option" where
  "insert_nonfull tree node key val =
     (let tree = count_visit tree in
      if is_leaf node then insert_leaf tree node key val
      else do {
        (status, tree, node, pos) \<leftarrow> insert_descend tree node key;
        if status \<noteq> BTREE_OK then Some (status, tree, node)
        else do {
          c \<leftarrow> rd (children node) pos;
          child \<leftarrow> c;
          (status, tree, child) \<leftarrow> insert_nonfull tree child key val;
          cs \<leftarrow> wr (children node) pos (Some child);
          Some (status, tree, set_children node cs)
        }
      })"
  by pat_completeness auto
termination
proof (relation "measure (\<lambda>(tree, node, key, val). hgt node)", goal_cases)
  case 1
  show ?case by simp
next
  case (2 tree node key val tree1 x status y tree2 z node2 pos c child)
  then have "cs_le (cbound (children node)) node2"
    using insert_descend_hgt by blast
  then have "hgt_o (Some child) \<le> cbound (children node)"
    using 2 by (auto dest: cs_le_rd)
  then show ?case by (simp add: hgt_eq[of node] hgt_o_def)
qed

subsection \<open>Public API\<close>

text \<open>\<^verbatim>\<open>btree_create\<close>; \<open>None\<close> is the \<^verbatim>\<open>NULL\<close> it returns for an order outside
  \<^verbatim>\<open>BTREE_MIN_ORDER = 3\<close> .. \<^verbatim>\<open>BTREE_MAX_ORDER = 1024\<close>. \<^verbatim>\<open>calloc\<close> zeroes the
  statistics.\<close>

definition BTREE_MIN_ORDER :: nat where "BTREE_MIN_ORDER = 3"
definition BTREE_MAX_ORDER :: nat where "BTREE_MAX_ORDER = 1024"

definition stats_zero :: btree_stats_t where
  "stats_zero = \<lparr>node_count = 0, key_count = 0, height = 0, comparisons = 0, node_visits = 0,
     splits = 0, merges = 0, search_ops = 0, insert_ops = 0, delete_ops = 0\<rparr>"

definition btree_create :: "nat \<Rightarrow> btree_t option" where
  "btree_create ord =
     (if ord < BTREE_MIN_ORDER \<or> ord > BTREE_MAX_ORDER then None
      else Some \<lparr>root = Some (node_create ord True), order = ord,
                  min_keys = u32_sub ord 1 div 2,
                  stats = stats_zero\<lparr>node_count := 1, key_count := 0, height := 1\<rparr>,
                  collect_stats = True\<rparr>)"

text \<open>\<^verbatim>\<open>btree_insert\<close>, for a non-null \<^verbatim>\<open>tree\<close>.\<close>

definition btree_insert ::
  "btree_t \<Rightarrow> btree_key_t \<Rightarrow> btree_value_t \<Rightarrow> (btree_status_t \<times> btree_t) option" where
  "btree_insert tree key val =
     (case root tree of
        None \<Rightarrow> Some (BTREE_ERROR_INVALID, tree)
      | Some r \<Rightarrow> do {
          let tree = (if collect_stats tree
                      then tree\<lparr>stats := (stats tree)\<lparr>insert_ops := insert_ops (stats tree) + 1\<rparr>\<rparr>
                      else tree);
          if num_keys r = u32_sub (order tree) 1 then do {
            let new_root = node_create (order tree) False;
            cs \<leftarrow> wr (children new_root) 0 (Some r);
            let new_root = set_children new_root cs;
            let tree = tree\<lparr>root := Some new_root,
                             stats := (stats tree)\<lparr>node_count := node_count (stats tree) + 1,
                                                     height := height (stats tree) + 1\<rparr>\<rparr>;
            (status, tree, new_root) \<leftarrow> split_child tree new_root 0 r;
            if status \<noteq> BTREE_OK then Some (status, tree\<lparr>root := Some new_root\<rparr>)
            else do {
              (status, tree, new_root) \<leftarrow> insert_nonfull tree new_root key val;
              Some (status, tree\<lparr>root := Some new_root\<rparr>)
            }
          } else do {
            (status, tree, r) \<leftarrow> insert_nonfull tree r key val;
            Some (status, tree\<lparr>root := Some r\<rparr>)
          }
        })"

text \<open>\<^verbatim>\<open>btree_search\<close>, for a non-null \<^verbatim>\<open>tree\<close>. \<open>slot\<close> tells whether the \<^verbatim>\<open>value\<close>
  pointer is non-null; the second component of the result is what the call writes to
  \<^verbatim>\<open>*value\<close> (\<open>None\<close>: nothing is written). \<open>search_loop\<close> is the \<^verbatim>\<open>while (node)\<close> loop.\<close>

function search_loop ::
  "btree_t \<Rightarrow> btree_node_t option \<Rightarrow> btree_key_t \<Rightarrow> bool
     \<Rightarrow> (btree_status_t \<times> btree_value_t option \<times> btree_t) option" where
  "search_loop tree None key slot = Some (BTREE_ERROR_NOT_FOUND, None, tree)"
| "search_loop tree (Some node) key slot = do {
     let tree = count_visit tree;
     (pos, found, tree) \<leftarrow> tree_binary_search tree node key;
     if found then
       (if slot \<and> is_leaf node then do {
          v \<leftarrow> rd (vals node) pos;
          Some (BTREE_OK, Some v, tree)
        } else Some (BTREE_OK, None, tree))
     else if is_leaf node then Some (BTREE_ERROR_NOT_FOUND, None, tree)
     else do {
       c \<leftarrow> rd (children node) pos;
       search_loop tree c key slot
     }
   }"
  by pat_completeness auto
termination
  by (relation "measure (\<lambda>(tree, node, key, slot). hgt_o node)")
     (auto dest: rd_child_hgt simp: hgt_o_def[of "Some _"])

definition btree_search ::
  "btree_t \<Rightarrow> btree_key_t \<Rightarrow> bool
     \<Rightarrow> (btree_status_t \<times> btree_value_t option \<times> btree_t) option" where
  "btree_search tree key slot =
     (case root tree of
        None \<Rightarrow> Some (BTREE_ERROR_INVALID, None, tree)
      | Some r \<Rightarrow>
          search_loop
            (if collect_stats tree
             then tree\<lparr>stats := (stats tree)\<lparr>search_ops := search_ops (stats tree) + 1\<rparr>\<rparr>
             else tree)
            (Some r) key slot)"

definition btree_contains :: "btree_t \<Rightarrow> btree_key_t \<Rightarrow> (bool \<times> btree_t) option" where
  "btree_contains tree key = do {
     (status, v, tree) \<leftarrow> btree_search tree key False;
     Some (status = BTREE_OK, tree)
   }"

text \<open>\<^verbatim>\<open>btree_delete\<close>, for a non-null \<^verbatim>\<open>tree\<close>; it searches with the address of a local
  \<^verbatim>\<open>value\<close>.\<close>

definition btree_delete :: "btree_t \<Rightarrow> btree_key_t \<Rightarrow> (btree_status_t \<times> btree_t) option" where
  "btree_delete tree key = do {
     let tree = (if collect_stats tree
                 then tree\<lparr>stats := (stats tree)\<lparr>delete_ops := delete_ops (stats tree) + 1\<rparr>\<rparr>
                 else tree);
     (status, v, tree) \<leftarrow> btree_search tree key True;
     if status = BTREE_OK
     then Some (BTREE_OK, tree\<lparr>stats := (stats tree)\<lparr>key_count := key_count (stats tree) - 1\<rparr>\<rparr>)
     else Some (status, tree)
   }"

text \<open>\<^verbatim>\<open>calculate_height\<close>, \<^verbatim>\<open>btree_height\<close>, \<^verbatim>\<open>btree_size\<close>,
  \<^verbatim>\<open>btree_set_stats_collection\<close>.\<close>

function calculate_height :: "btree_node_t option \<Rightarrow> u32 option" where
  "calculate_height None = Some 0"
| "calculate_height (Some node) =
     (if is_leaf node then Some 1
      else do {
        c \<leftarrow> rd (children node) 0;
        h \<leftarrow> calculate_height c;
        Some (1 + h)
      })"
  by pat_completeness auto
termination
  by (relation "measure hgt_o") (auto dest: rd_child_hgt simp: hgt_o_def[of "Some _"])

definition btree_height :: "btree_t \<Rightarrow> u32 option" where
  "btree_height tree = calculate_height (root tree)"

definition btree_size :: "btree_t \<Rightarrow> u64" where
  "btree_size tree = key_count (stats tree)"

definition btree_set_stats_collection :: "btree_t \<Rightarrow> bool \<Rightarrow> btree_t" where
  "btree_set_stats_collection tree enabled = tree\<lparr>collect_stats := enabled\<rparr>"

text \<open>\<^verbatim>\<open>validate_node\<close>. \<open>andalso c rest\<close> is \<^verbatim>\<open>if (!c) return false;\<close> followed by
  \<open>rest\<close>. The pointers \<^verbatim>\<open>min_key\<close> and \<^verbatim>\<open>max_key\<close> are \<open>None\<close> when null and the key
  they point to otherwise.\<close>

definition andalso :: "bool option \<Rightarrow> bool option \<Rightarrow> bool option" where
  "andalso c rest = (case c of None \<Rightarrow> None | Some False \<Rightarrow> Some False | Some True \<Rightarrow> rest)"

lemma andalso_cong [fundef_cong]:
  "c = c' \<Longrightarrow> (c' = Some True \<Longrightarrow> r = r') \<Longrightarrow> andalso c r = andalso c' r'"
  by (auto simp: andalso_def split: option.splits bool.splits)

lemma all_opt_cong [fundef_cong]:
  "xs = ys \<Longrightarrow> (\<And>x. x \<in> set ys \<Longrightarrow> f x = g x) \<Longrightarrow> all_opt f xs = all_opt g ys"
  by (induction ys arbitrary: xs) (auto split: option.splits bool.splits)

function validate_node ::
  "btree_node_t option \<Rightarrow> nat \<Rightarrow> nat \<Rightarrow> btree_key_t option \<Rightarrow> btree_key_t option \<Rightarrow> bool
     \<Rightarrow> bool option" where
  "validate_node None mink maxk min_key max_key is_root = Some True"
| "validate_node (Some node) mink maxk min_key max_key is_root =
     andalso (Some (\<not> (\<not> is_root \<and> num_keys node < mink)))
    (andalso (Some (\<not> num_keys node > maxk))
    (andalso (all_opt (\<lambda>i. do {
                  a \<leftarrow> rd (keys node) (int i);
                  b \<leftarrow> rd (keys node) (int i - 1);
                  Some (\<not> a \<le> b)
                }) [1..<num_keys node])
    (andalso (if num_keys node > 0 then
                andalso (case min_key of None \<Rightarrow> Some True
                         | Some m \<Rightarrow> do { k \<leftarrow> rd (keys node) 0; Some (\<not> k \<le> m) })
                        (case max_key of None \<Rightarrow> Some True
                         | Some m \<Rightarrow> do {
                             k \<leftarrow> rd (keys node) (int (u32_sub (num_keys node) 1));
                             Some (\<not> k \<ge> m) })
              else Some True)
             (if \<not> is_leaf node then
                all_opt (\<lambda>i. do {
                    child_min \<leftarrow> (if i = 0 then Some min_key
                                  else map_option Some (rd (keys node) (int i - 1)));
                    child_max \<leftarrow> (if i = num_keys node then Some max_key
                                  else map_option Some (rd (keys node) (int i)));
                    c \<leftarrow> rd (children node) (int i);
                    validate_node c mink maxk child_min child_max False
                  }) [0..<Suc (num_keys node)]
              else Some True))))"
  by pat_completeness auto
termination
  by (relation "measure (\<lambda>(node, mink, maxk, min_key, max_key, is_root). hgt_o node)")
     (auto dest: rd_child_hgt simp: hgt_o_def[of "Some _"])

definition btree_validate :: "btree_t \<Rightarrow> bool option" where
  "btree_validate tree =
     (case root tree of
        None \<Rightarrow> Some False
      | Some r \<Rightarrow> validate_node (Some r) (min_keys tree) (u32_sub (order tree) 1) None None True)"

subsection \<open>Cursor operations\<close>

text \<open>The cursor borrows the tree and the nodes of its path; the tree is not changed
  while a cursor is in use, so \<open>ctree\<close> (the field \<^verbatim>\<open>tree\<close>) and the entries of \<open>path\<close> hold
  the tree and the nodes themselves. \<^verbatim>\<open>btree_cursor_create\<close>, for a non-null tree:\<close>

definition btree_cursor_create :: "btree_t \<Rightarrow> btree_cursor_t" where
  "btree_cursor_create tree =
     \<lparr>ctree = tree, path = replicate 64 None, positions = replicate 64 0,
      depth = - 1, max_depth = 64, valid = False\<rparr>"

text \<open>\<^verbatim>\<open>cursor->path[cursor->depth]\<close>, dereferenced.\<close>

definition cur_node :: "btree_cursor_t \<Rightarrow> btree_node_t option" where
  "cur_node cursor = do { n \<leftarrow> rd (path cursor) (depth cursor); n }"

lemma nth_child_hgt: "i < length (children a) \<Longrightarrow> hgt_o (children a ! i) < hgt a"
  using cbound_ge[of "children a ! i" "children a"] by (simp add: hgt_eq)

text \<open>\<^verbatim>\<open>btree_cursor_first\<close> and its loop \<^verbatim>\<open>while (!cursor->path[cursor->depth]->is_leaf)\<close>.\<close>

function first_loop :: "btree_cursor_t \<Rightarrow> btree_cursor_t option" where
  "first_loop cursor = do {
     node \<leftarrow> cur_node cursor;
     if is_leaf node then Some cursor
     else do {
       let cursor = cursor\<lparr>depth := depth cursor + 1\<rparr>;
       c \<leftarrow> rd (children node) 0;
       p \<leftarrow> wr (path cursor) (depth cursor) c;
       let cursor = cursor\<lparr>path := p\<rparr>;
       ps \<leftarrow> wr (positions cursor) (depth cursor) 0;
       first_loop (cursor\<lparr>positions := ps\<rparr>)
     }
   }"
  by pat_completeness auto
termination
  by (relation "measure (\<lambda>cursor. hgt_o (cur_node cursor))")
     (auto simp: cur_node_def rd_def wr_def hgt_o_def[of "Some _"] nth_child_hgt
           split: if_splits)

definition btree_cursor_first :: "btree_cursor_t \<Rightarrow> (btree_status_t \<times> btree_cursor_t) option" where
  "btree_cursor_first cursor =
     (case root (ctree cursor) of
        None \<Rightarrow> Some (BTREE_ERROR_INVALID, cursor)
      | Some r \<Rightarrow> do {
          let cursor = cursor\<lparr>depth := 0\<rparr>;
          p \<leftarrow> wr (path cursor) 0 (Some r);
          let cursor = cursor\<lparr>path := p\<rparr>;
          ps \<leftarrow> wr (positions cursor) 0 0;
          let cursor = cursor\<lparr>positions := ps\<rparr>;
          cursor \<leftarrow> first_loop cursor;
          node \<leftarrow> cur_node cursor;
          let cursor = cursor\<lparr>valid := num_keys node > 0\<rparr>;
          Some (if valid cursor then BTREE_OK else BTREE_ERROR_NOT_FOUND, cursor)
        })"

text \<open>\<^verbatim>\<open>btree_cursor_last\<close>. \<^verbatim>\<open>positions[depth] = num_keys - 1\<close> stores the unsigned
  difference in an \<^verbatim>\<open>int\<close>: \<open>- 1\<close> when \<^verbatim>\<open>num_keys\<close> is 0. The index \<^verbatim>\<open>num_keys\<close> of
  \<^verbatim>\<open>children\<close> is unsigned.\<close>

function last_loop :: "btree_cursor_t \<Rightarrow> btree_cursor_t option" where
  "last_loop cursor = do {
     node \<leftarrow> cur_node cursor;
     if is_leaf node then Some cursor
     else do {
       ps \<leftarrow> wr (positions cursor) (depth cursor) (int_of_u32 (num_keys node));
       let cursor = cursor\<lparr>positions := ps\<rparr>;
       let cursor = cursor\<lparr>depth := depth cursor + 1\<rparr>;
       c \<leftarrow> rd (children node) (int (num_keys node));
       p \<leftarrow> wr (path cursor) (depth cursor) c;
       last_loop (cursor\<lparr>path := p\<rparr>)
     }
   }"
  by pat_completeness auto
termination
  by (relation "measure (\<lambda>cursor. hgt_o (cur_node cursor))")
     (auto simp: cur_node_def rd_def wr_def hgt_o_def[of "Some _"] nth_child_hgt
           split: if_splits)

definition btree_cursor_last :: "btree_cursor_t \<Rightarrow> (btree_status_t \<times> btree_cursor_t) option" where
  "btree_cursor_last cursor =
     (case root (ctree cursor) of
        None \<Rightarrow> Some (BTREE_ERROR_INVALID, cursor)
      | Some r \<Rightarrow> do {
          let cursor = cursor\<lparr>depth := 0\<rparr>;
          p \<leftarrow> wr (path cursor) 0 (Some r);
          let cursor = cursor\<lparr>path := p\<rparr>;
          cursor \<leftarrow> last_loop cursor;
          node \<leftarrow> cur_node cursor;
          ps \<leftarrow> wr (positions cursor) (depth cursor) (int_of_u32 (u32_sub (num_keys node) 1));
          let cursor = cursor\<lparr>positions := ps\<rparr>;
          pos \<leftarrow> rd (positions cursor) (depth cursor);
          let cursor = cursor\<lparr>valid := pos \<ge> 0\<rparr>;
          Some (if valid cursor then BTREE_OK else BTREE_ERROR_NOT_FOUND, cursor)
        })"

text \<open>\<^verbatim>\<open>btree_cursor_next\<close>: the inner loop
  \<^verbatim>\<open>while (!cursor->path[cursor->depth]->is_leaf)\<close>, the outer loop
  \<^verbatim>\<open>while (cursor->depth > 0)\<close> with what follows it, and the function.\<close>

function next_down_loop :: "btree_cursor_t \<Rightarrow> btree_cursor_t option" where
  "next_down_loop cursor = do {
     parent \<leftarrow> cur_node cursor;
     if is_leaf parent then Some cursor
     else do {
       let cursor = cursor\<lparr>depth := depth cursor + 1\<rparr>;
       i \<leftarrow> rd (positions cursor) (depth cursor - 1);
       c \<leftarrow> rd (children parent) i;
       p \<leftarrow> wr (path cursor) (depth cursor) c;
       let cursor = cursor\<lparr>path := p\<rparr>;
       ps \<leftarrow> wr (positions cursor) (depth cursor) 0;
       next_down_loop (cursor\<lparr>positions := ps\<rparr>)
     }
   }"
  by pat_completeness auto
termination
  by (relation "measure (\<lambda>cursor. hgt_o (cur_node cursor))")
     (auto simp: cur_node_def rd_def wr_def hgt_o_def[of "Some _"] nth_child_hgt
           split: if_splits)

function next_up_loop :: "btree_cursor_t \<Rightarrow> (btree_status_t \<times> btree_cursor_t) option" where
  "next_up_loop cursor =
     (if depth cursor > 0 then do {
        let cursor = cursor\<lparr>depth := depth cursor - 1\<rparr>;
        i \<leftarrow> rd (positions cursor) (depth cursor);
        ps \<leftarrow> wr (positions cursor) (depth cursor) (i + 1);
        let cursor = cursor\<lparr>positions := ps\<rparr>;
        i \<leftarrow> rd (positions cursor) (depth cursor);
        node \<leftarrow> cur_node cursor;
        if i \<le> int_of_u32 (num_keys node) then do {
          cursor \<leftarrow> next_down_loop cursor;
          Some (BTREE_OK, cursor)
        } else next_up_loop cursor
      } else Some (BTREE_ERROR_NOT_FOUND, cursor\<lparr>valid := False\<rparr>))"
  by pat_completeness auto
termination
  by (relation "measure (\<lambda>cursor. nat (depth cursor))") auto

definition btree_cursor_next :: "btree_cursor_t \<Rightarrow> (btree_status_t \<times> btree_cursor_t) option" where
  "btree_cursor_next cursor =
     (if \<not> valid cursor then Some (BTREE_ERROR_INVALID, cursor)
      else do {
        node \<leftarrow> cur_node cursor;
        i \<leftarrow> rd (positions cursor) (depth cursor);
        ps \<leftarrow> wr (positions cursor) (depth cursor) (i + 1);
        let cursor = cursor\<lparr>positions := ps\<rparr>;
        i \<leftarrow> rd (positions cursor) (depth cursor);
        if i < int_of_u32 (num_keys node) then Some (BTREE_OK, cursor)
        else next_up_loop cursor
      })"

text \<open>\<^verbatim>\<open>btree_cursor_get\<close>. \<open>want_key\<close> and \<open>want_value\<close> tell whether the pointers
  \<^verbatim>\<open>key\<close> and \<^verbatim>\<open>value\<close> are non-null; the result carries what is written to \<^verbatim>\<open>*key\<close> and
  to \<^verbatim>\<open>*value\<close> (\<open>None\<close>: nothing is written).\<close>

definition btree_cursor_get ::
  "btree_cursor_t \<Rightarrow> bool \<Rightarrow> bool
     \<Rightarrow> (btree_status_t \<times> btree_key_t option \<times> btree_value_t option) option" where
  "btree_cursor_get cursor want_key want_value =
     (if \<not> valid cursor then Some (BTREE_ERROR_INVALID, None, None)
      else do {
        node \<leftarrow> cur_node cursor;
        pos \<leftarrow> rd (positions cursor) (depth cursor);
        if pos < 0 \<or> pos \<ge> int_of_u32 (num_keys node) then Some (BTREE_ERROR_INVALID, None, None)
        else do {
          k \<leftarrow> (if want_key then map_option Some (rd (keys node) pos) else Some None);
          v \<leftarrow> (if want_value \<and> is_leaf node then map_option Some (rd (vals node) pos)
                else Some None);
          Some (BTREE_OK, k, v)
        }
      })"

definition btree_cursor_valid :: "btree_cursor_t \<Rightarrow> bool" where
  "btree_cursor_valid cursor = valid cursor"

subsection \<open>Running the functions on concrete inputs\<close>

text \<open>The recursive functions are unfolded on demand only. The congruence rules below make
  the simplifier evaluate the first argument of a bind, the list of a loop and the bound
  term of a \<open>let\<close> before it looks at what follows.\<close>

declare insert_nonfull.simps [simp del] search_loop.simps [simp del] calculate_height.simps [simp del]
  validate_node.simps [simp del] first_loop.simps [simp del] last_loop.simps [simp del]
  next_down_loop.simps [simp del] next_up_loop.simps [simp del]

text \<open>A sequence of \<^verbatim>\<open>btree_insert\<close> calls, as the loops of the test driver make them; the
  statuses are dropped.\<close>

primrec insert_seq :: "btree_t \<Rightarrow> (btree_key_t \<times> btree_value_t) list \<Rightarrow> btree_t option" where
  "insert_seq tree [] = Some tree"
| "insert_seq tree (kv # kvs) = do {
     (status, tree) \<leftarrow> btree_insert tree (fst kv) (snd kv);
     insert_seq tree kvs
   }"

lemma bind_weak_cong: "m = m' \<Longrightarrow> Option.bind m f = Option.bind m' f"
  by simp

lemma fold_opt_weak_cong: "xs = xs' \<Longrightarrow> s = s' \<Longrightarrow> fold_opt f xs s = fold_opt f xs' s'"
  by simp

lemma all_opt_weak_cong: "xs = xs' \<Longrightarrow> all_opt f xs = all_opt f xs'"
  by simp

lemma andalso_weak_cong: "c = c' \<Longrightarrow> andalso c r = andalso c' r"
  by simp

lemma replicate_numeral: "replicate (numeral k) x = x # replicate (pred_numeral k) x"
  by (simp add: numeral_eq_Suc)

lemma list_update_numeral: "(x # xs)[numeral k := y] = x # xs[pred_numeral k := y]"
  by (simp add: numeral_eq_Suc)

lemmas eval_simps =
  btree_create_def BTREE_MIN_ORDER_def BTREE_MAX_ORDER_def stats_zero_def node_create_def
  u32_sub_def u32_inc_def int_of_u32_def btree_insert_def insert_nonfull.simps count_visit_def tree_binary_search_def
  node_binary_search_def node_binary_search_loop.simps insert_leaf_def insert_descend_def
  split_child_def copy_upper_keys_def copy_upper_children_def shift_children_def
  shift_keys_def shift_leaf_def rd_def wr_def set_keys_def set_vals_def set_children_def
  set_num_keys_def Let_def replicate_numeral list_update_numeral upto.simps upt_rec
  btree_search_def search_loop.simps btree_delete_def btree_contains_def
  calculate_height.simps btree_height_def btree_size_def btree_validate_def
  validate_node.simps andalso_def btree_set_stats_collection_def
  btree_cursor_create_def cur_node_def first_loop.simps last_loop.simps
  next_down_loop.simps next_up_loop.simps btree_cursor_first_def btree_cursor_last_def
  btree_cursor_next_def btree_cursor_get_def btree_cursor_valid_def

lemmas eval_congs = bind_weak_cong fold_opt_weak_cong all_opt_weak_cong let_weak_cong

subsection \<open>The height bound of the spec\<close>

text \<open>Modelled from the spec: the bound of the spec's sentence
  \<open>height(tree) \<le> \<lceil>log\<^bsub>\<lceil>m/2\<rceil>\<^esub>((N+1)/2)\<rceil> + 1\<close>, which is a formula of the spec and no
  function of the source.\<close>

definition spec_height_bound :: "nat \<Rightarrow> nat \<Rightarrow> int" where
  "spec_height_bound m N = \<lceil>log (of_int \<lceil>real m / 2\<rceil>) ((real N + 1) / 2)\<rceil> + 1"

subsection \<open>Well-formed nodes and the descent path\<close>

text \<open>A node is well formed when its \<^verbatim>\<open>num_keys\<close> keys lie inside the key array and are
  in ascending order, a leaf has a value for each key, and an internal node has
  \<^verbatim>\<open>num_keys + 1\<close> children, none null, each well formed. The bound on \<^verbatim>\<open>num_keys\<close> keeps
  the \<^verbatim>\<open>int\<close> arithmetic of the search primitive exact; \<^verbatim>\<open>btree_create\<close> admits at most
  1023 keys in a node.\<close>

lemma take_child_hgt: "c \<in> set (take k (children n)) \<Longrightarrow> hgt_o c < hgt n"
  using cbound_ge[of c "children n"] by (auto dest: in_set_takeD simp: hgt_eq)

function node_ok :: "btree_node_t \<Rightarrow> bool" where
  "node_ok node =
     (num_keys node \<le> length (keys node) \<and> num_keys node < 2 ^ 30 \<and>
      sorted (live_keys node) \<and>
      (if is_leaf node then num_keys node \<le> length (vals node)
       else num_keys node < length (children node) \<and>
            list_all (\<lambda>c. case c of None \<Rightarrow> False | Some m \<Rightarrow> node_ok m)
              (take (Suc (num_keys node)) (children node))))"
  by pat_completeness auto
termination
  by (relation "measure hgt") (auto dest: take_child_hgt simp: hgt_o_def[of "Some _"])

declare node_ok.simps [simp del]

text \<open>The walk of \<^verbatim>\<open>btree_search\<close> as the spec words it: from a node that does not hold
  the key and is no leaf, go to the child at the insertion position, the number of keys
  of the node smaller than the query. The path ends at a node that holds the key, at a
  leaf, or at a null child.\<close>

function descent_path :: "btree_node_t option \<Rightarrow> btree_key_t \<Rightarrow> btree_node_t list" where
  "descent_path None key = []"
| "descent_path (Some node) key =
     node # (if key \<in> set (live_keys node) \<or> is_leaf node then []
             else case rd (children node) (int (length (filter (\<lambda>k. k < key) (live_keys node)))) of
                    None \<Rightarrow> []
                  | Some c \<Rightarrow> descent_path c key)"
  by pat_completeness auto
termination
  by (relation "measure (\<lambda>(node, key). hgt_o node)")
     (auto dest: rd_child_hgt simp: hgt_o_def[of "Some _"])

declare descent_path.simps [simp del]

subsection \<open>What a search changes\<close>

text \<open>\<open>hot_only t t'\<close>: the tree \<open>t'\<close> is \<open>t\<close> but for the counters \<^verbatim>\<open>comparisons\<close> and
  \<^verbatim>\<open>node_visits\<close>, and is \<open>t\<close> itself when statistics collection is off.\<close>

definition hot_only :: "btree_t \<Rightarrow> btree_t \<Rightarrow> bool" where
  "hot_only t t' =
     (t' = t\<lparr>stats := (stats t)\<lparr>comparisons := comparisons (stats t'),
                                node_visits := node_visits (stats t')\<rparr>\<rparr>
      \<and> (\<not> collect_stats t \<longrightarrow> t' = t))"

subsection \<open>What an insert leaves alone\<close>

text \<open>\<open>op_frame t t'\<close>: from \<open>t\<close> to \<open>t'\<close> the configuration and the three operation counters
  are unchanged, and so are the two hot-path counters when statistics collection is off.\<close>

definition op_frame :: "btree_t \<Rightarrow> btree_t \<Rightarrow> bool" where
  "op_frame t t' =
     (collect_stats t' = collect_stats t \<and> order t' = order t
      \<and> search_ops (stats t') = search_ops (stats t)
      \<and> insert_ops (stats t') = insert_ops (stats t)
      \<and> delete_ops (stats t') = delete_ops (stats t)
      \<and> (\<not> collect_stats t \<longrightarrow> comparisons (stats t') = comparisons (stats t)
                               \<and> node_visits (stats t') = node_visits (stats t)))"

subsection \<open>Repeated deletes\<close>

text \<open>Repeated \<^verbatim>\<open>btree_delete\<close> calls with one key; the statuses are collected.\<close>

primrec delete_times ::
  "nat \<Rightarrow> btree_t \<Rightarrow> btree_key_t \<Rightarrow> (btree_status_t list \<times> btree_t) option" where
  "delete_times 0 tree key = Some ([], tree)"
| "delete_times (Suc n) tree key = do {
     (st, tree) \<leftarrow> btree_delete tree key;
     (sts, tree) \<leftarrow> delete_times n tree key;
     Some (st # sts, tree)
   }"

section \<open>Lemmas about search, insert and delete\<close>

lemma bs_loop_correct:
  assumes "sorted (take n ks)" "n \<le> length ks"
    and "0 \<le> lwr" "upr < int n" "lwr \<le> upr + 1"
    and "n < 2 ^ 30"
    and "\<forall>i. i < nat lwr \<longrightarrow> ks ! i < key"
    and "\<forall>i. nat (upr + 1) \<le> i \<and> i < n \<longrightarrow> key < ks ! i"
  shows "\<exists>pos found c'. node_binary_search_loop ks key lwr upr c = Some (pos, found, c')
           \<and> 0 \<le> pos \<and> pos \<le> int n
           \<and> (found \<longrightarrow> pos < int n \<and> ks ! nat pos = key)
           \<and> (\<not> found \<longrightarrow> (\<forall>i. i < nat pos \<longrightarrow> ks ! i < key)
                            \<and> (\<forall>i. nat pos \<le> i \<and> i < n \<longrightarrow> key < ks ! i))"
  using assms
proof (induction ks key lwr upr c rule: node_binary_search_loop.induct)
  case (1 ks key lwr upr c)
  show ?case
  proof (cases "lwr \<le> upr")
    case False
    with "1.prems" have "lwr = upr + 1" by simp
    with False "1.prems" show ?thesis
      by (subst node_binary_search_loop.simps) auto
  next
    case True
    define mid where "mid = (lwr + upr) div 2"
    have mid: "lwr \<le> mid" "mid \<le> upr" using True by (auto simp: mid_def)
    with "1.prems" have inr: "0 \<le> mid" "mid < int n" "nat mid < n" "nat mid < length ks"
      by auto
    have small: "\<not> lwr + upr > 2147483647" using True "1.prems"(4,6) by simp
    have rd: "(if lwr + upr > 2147483647 then None else rd ks mid) = Some (ks ! nat mid)"
      using inr "1.prems"(2) small by (simp add: rd_def)
    have nth: "\<And>i j. i < j \<Longrightarrow> j < n \<Longrightarrow> ks ! i \<le> ks ! j"
      using "1.prems"(1,2) by (auto simp: sorted_wrt_iff_nth_less)
    consider (lt) "ks ! nat mid < key" | (gt) "key < ks ! nat mid" | (eq) "ks ! nat mid = key"
      by linarith
    then show ?thesis
    proof cases
      case lt
      have a: "\<forall>i. i < nat (mid + 1) \<longrightarrow> ks ! i < key"
      proof (intro allI impI)
        fix i assume "i < nat (mid + 1)"
        then have "i \<le> nat mid" using inr by linarith
        then have "i = nat mid \<or> i < nat mid" by linarith
        then show "ks ! i < key" using lt nth[of i "nat mid"] inr by force
      qed
      have "\<exists>pos found c'.
              node_binary_search_loop ks key (mid + 1) upr (map_option (\<lambda>c. c + 1) c)
                = Some (pos, found, c')
           \<and> 0 \<le> pos \<and> pos \<le> int n
           \<and> (found \<longrightarrow> pos < int n \<and> ks ! nat pos = key)
           \<and> (\<not> found \<longrightarrow> (\<forall>i. i < nat pos \<longrightarrow> ks ! i < key)
                            \<and> (\<forall>i. nat pos \<le> i \<and> i < n \<longrightarrow> key < ks ! i))"
        using "1.IH"(1)[OF True mid_def refl rd lt "1.prems"(1,2)] inr mid a "1.prems"(4,6,8)
        by simp
      then show ?thesis
        using True rd lt
        by (subst node_binary_search_loop.simps) (simp add: mid_def[symmetric] Let_def)
    next
      case gt
      have a: "\<forall>i. nat (mid - 1 + 1) \<le> i \<and> i < n \<longrightarrow> key < ks ! i"
      proof (intro allI impI)
        fix i assume "nat (mid - 1 + 1) \<le> i \<and> i < n"
        then have "nat mid \<le> i" "i < n" by auto
        then have "i = nat mid \<or> nat mid < i" by linarith
        then show "key < ks ! i" using gt nth[of "nat mid" i] \<open>i < n\<close> by force
      qed
      have ngt: "\<not> ks ! nat mid < key" using gt by simp
      have "\<exists>pos found c'.
              node_binary_search_loop ks key lwr (mid - 1) (map_option (\<lambda>c. c + 1) c)
                = Some (pos, found, c')
           \<and> 0 \<le> pos \<and> pos \<le> int n
           \<and> (found \<longrightarrow> pos < int n \<and> ks ! nat pos = key)
           \<and> (\<not> found \<longrightarrow> (\<forall>i. i < nat pos \<longrightarrow> ks ! i < key)
                            \<and> (\<forall>i. nat pos \<le> i \<and> i < n \<longrightarrow> key < ks ! i))"
        using "1.IH"(2)[OF True mid_def refl rd ngt gt "1.prems"(1,2)] inr mid a "1.prems"(3,6,7)
        by simp
      then show ?thesis
        using True rd gt ngt
        by (subst node_binary_search_loop.simps) (simp add: mid_def[symmetric] Let_def)
    next
      case eq
      then show ?thesis
        using True rd inr
        by (subst node_binary_search_loop.simps) (auto simp add: mid_def[symmetric] Let_def)
    qed
  qed
qed

lemma int_of_u32_small: "n < 2 ^ 31 \<Longrightarrow> int_of_u32 n = int n"
  by (simp add: int_of_u32_def)

lemma count_less_sorted:
  assumes "n \<le> length ks" "p \<le> n"
    and "\<forall>i. i < p \<longrightarrow> ks ! i < key"
    and "\<forall>i. p \<le> i \<and> i < n \<longrightarrow> key < ks ! i"
  shows "length (filter (\<lambda>k. k < (key::int)) (take n ks)) = p"
proof -
  have split: "take n ks = take p ks @ drop p (take n ks)"
    using assms(2) by (metis append_take_drop_id min.absorb1 take_take)
  have a: "filter (\<lambda>k. k < key) (take p ks) = take p ks"
    using assms(1,2,3) by (auto simp: filter_id_conv in_set_conv_nth)
  have b: "filter (\<lambda>k. k < key) (drop p (take n ks)) = []"
  proof -
    have "\<not> x < key" if "x \<in> set (drop p (take n ks))" for x
    proof -
      from that obtain j where j: "j < length (drop p (take n ks))" "drop p (take n ks) ! j = x"
        by (auto simp: in_set_conv_nth)
      then have pj: "p + j < n" "ks ! (p + j) = x" using assms(1) by auto
      have "p \<le> p + j" by simp
      with pj(1) assms(4) have "key < ks ! (p + j)" by blast
      with pj(2) show ?thesis by simp
    qed
    then show ?thesis by (auto simp: filter_empty_conv)
  qed
  have "length (filter (\<lambda>k. k < key) (take n ks)) = length (take p ks)"
    by (subst split) (simp add: a b)
  then show ?thesis using assms(1,2) by simp
qed

text \<open>What the search primitive returns on a well-formed node, with the insertion position
  as a count.\<close>

lemma node_binary_search_props:
  assumes "num_keys node \<le> length (keys node)" and "sorted (live_keys node)"
    and "num_keys node < 2 ^ 30"
  shows "\<exists>pos found c'. node_binary_search node key c = Some (pos, found, c')
           \<and> 0 \<le> pos \<and> pos \<le> int (num_keys node)
           \<and> (found \<longleftrightarrow> key \<in> set (live_keys node))
           \<and> (found \<longrightarrow> pos < int (num_keys node) \<and> keys node ! nat pos = key)
           \<and> (\<not> found \<longrightarrow> pos = int (length (filter (\<lambda>k. k < key) (live_keys node))))"
proof -
  obtain pos found c' where r: "node_binary_search node key c = Some (pos, found, c')"
    and b: "0 \<le> pos" "pos \<le> int (num_keys node)"
    and f: "found \<longrightarrow> pos < int (num_keys node) \<and> keys node ! nat pos = key"
    and nf: "\<not> found \<longrightarrow> (\<forall>i. i < nat pos \<longrightarrow> keys node ! i < key)
                 \<and> (\<forall>i. nat pos \<le> i \<and> i < num_keys node \<longrightarrow> key < keys node ! i)"
    using bs_loop_correct[of "num_keys node" "keys node" 0 "int (num_keys node) - 1" key c] assms
      int_of_u32_small[of "num_keys node"]
    unfolding node_binary_search_def live_keys_def by auto
  have mem: "found \<longleftrightarrow> key \<in> set (live_keys node)"
  proof
    assume found
    with f b have "nat pos < num_keys node" "keys node ! nat pos = key" by auto
    then show "key \<in> set (live_keys node)"
      using assms(1) by (auto simp: live_keys_def in_set_conv_nth intro!: exI[of _ "nat pos"])
  next
    assume "key \<in> set (live_keys node)"
    then obtain i where i: "i < num_keys node" "keys node ! i = key"
      using assms(1) by (auto simp: live_keys_def in_set_conv_nth)
    show found
    proof (rule ccontr)
      assume "\<not> found"
      with nf have lo: "\<forall>j. j < nat pos \<longrightarrow> keys node ! j < key"
        and hi: "\<forall>j. nat pos \<le> j \<and> j < num_keys node \<longrightarrow> key < keys node ! j" by auto
      show False
      proof (cases "i < nat pos")
        case True
        with lo i show False by auto
      next
        case False
        then have "key < keys node ! i" using hi i(1) by auto
        with i show False by simp
      qed
    qed
  qed
  have cnt: "pos = int (length (filter (\<lambda>k. k < key) (live_keys node)))" if "\<not> found"
  proof -
    have "length (filter (\<lambda>k. k < key) (take (num_keys node) (keys node))) = nat pos"
      using nf that b assms(1) by (intro count_less_sorted) auto
    then show ?thesis using b by (simp add: live_keys_def)
  qed
  from r b f mem cnt show ?thesis by blast
qed

text \<open>The flag and the index do not depend on the \<^verbatim>\<open>comparisons\<close> pointer.\<close>

lemma bs_loop_indep:
  "map_option (\<lambda>(p, f, c). (p, f)) (node_binary_search_loop ks key lwr upr c1)
     = map_option (\<lambda>(p, f, c). (p, f)) (node_binary_search_loop ks key lwr upr c2)"
proof (induction ks key lwr upr c1 arbitrary: c2 rule: node_binary_search_loop.induct)
  case (1 ks key lwr upr c1)
  note unfold = node_binary_search_loop.simps[of ks key lwr upr]
  show ?case
  proof (cases "lwr \<le> upr")
    case False
    then show ?thesis by (simp add: unfold)
  next
    case True
    show ?thesis
    proof (cases "if lwr + upr > 2147483647 then None else rd ks ((lwr + upr) div 2)")
      case None
      then show ?thesis using True by (simp add: unfold Let_def)
    next
      case (Some km)
      consider (lt) "km < key" | (gt) "\<not> km < key" "key < km" | (eq) "km = key" by linarith
      then show ?thesis
      proof cases
        case lt
        then show ?thesis
          using True Some "1.IH"(1)[OF True refl refl Some lt]
          by (simp add: unfold Let_def)
      next
        case gt
        then show ?thesis
          using True Some "1.IH"(2)[OF True refl refl Some gt]
          by (simp add: unfold Let_def)
      next
        case eq
        then show ?thesis using True Some by (simp add: unfold Let_def)
      qed
    qed
  qed
qed

text \<open>A null pointer stays null, and a counter stays a counter.\<close>

lemma bs_loop_ptr:
  "node_binary_search_loop ks key lwr upr c = Some (p, f, c') \<Longrightarrow> (c' = None) = (c = None)"
proof (induction ks key lwr upr c arbitrary: p f c' rule: node_binary_search_loop.induct)
  case (1 ks key lwr upr c)
  note unfold = node_binary_search_loop.simps[of ks key lwr upr]
  show ?case
  proof (cases "lwr \<le> upr")
    case False
    then show ?thesis using "1.prems" by (simp add: unfold)
  next
    case True
    show ?thesis
    proof (cases "if lwr + upr > 2147483647 then None else rd ks ((lwr + upr) div 2)")
      case None
      then show ?thesis using True "1.prems" by (simp add: unfold Let_def)
    next
      case (Some km)
      consider (lt) "km < key" | (gt) "\<not> km < key" "key < km" | (eq) "km = key" by linarith
      then show ?thesis
      proof cases
        case lt
        then show ?thesis
          using True Some "1.prems" "1.IH"(1)[OF True refl refl Some lt]
          by (simp add: unfold Let_def)
      next
        case gt
        then show ?thesis
          using True Some "1.prems" "1.IH"(2)[OF True refl refl Some gt]
          by (simp add: unfold Let_def)
      next
        case eq
        then show ?thesis using True Some "1.prems" by (auto simp add: unfold Let_def)
      qed
    qed
  qed
qed

lemma hot_only_refl: "hot_only t t"
  by (simp add: hot_only_def)

lemma hot_only_trans:
  assumes "hot_only a b" "hot_only b c"
  shows "hot_only a c"
proof -
  from assms(1) have b: "b = a\<lparr>stats := (stats a)\<lparr>comparisons := comparisons (stats b),
                                node_visits := node_visits (stats b)\<rparr>\<rparr>"
    and boff: "\<not> collect_stats a \<longrightarrow> b = a" by (auto simp: hot_only_def)
  from assms(2) have c: "c = b\<lparr>stats := (stats b)\<lparr>comparisons := comparisons (stats c),
                                node_visits := node_visits (stats c)\<rparr>\<rparr>"
    and coff: "\<not> collect_stats b \<longrightarrow> c = b" by (auto simp: hot_only_def)
  have "c = a\<lparr>stats := (stats a)\<lparr>comparisons := comparisons (stats c),
                                node_visits := node_visits (stats c)\<rparr>\<rparr>"
    by (subst c, subst (1 2) b) simp
  moreover have "\<not> collect_stats a \<longrightarrow> c = a" using boff coff by auto
  ultimately show ?thesis by (simp add: hot_only_def)
qed

lemma hot_only_fields:
  assumes "hot_only t t'"
  shows "root t' = root t" "order t' = order t" "min_keys t' = min_keys t"
    "collect_stats t' = collect_stats t"
    "node_count (stats t') = node_count (stats t)" "key_count (stats t') = key_count (stats t)"
    "height (stats t') = height (stats t)" "splits (stats t') = splits (stats t)"
    "merges (stats t') = merges (stats t)" "search_ops (stats t') = search_ops (stats t)"
    "insert_ops (stats t') = insert_ops (stats t)" "delete_ops (stats t') = delete_ops (stats t)"
proof -
  from assms have e: "t' = t\<lparr>stats := (stats t)\<lparr>comparisons := comparisons (stats t'),
                                node_visits := node_visits (stats t')\<rparr>\<rparr>"
    by (simp add: hot_only_def)
  show "root t' = root t" "order t' = order t" "min_keys t' = min_keys t"
    "collect_stats t' = collect_stats t"
    "node_count (stats t') = node_count (stats t)" "key_count (stats t') = key_count (stats t)"
    "height (stats t') = height (stats t)" "splits (stats t') = splits (stats t)"
    "merges (stats t') = merges (stats t)" "search_ops (stats t') = search_ops (stats t)"
    "insert_ops (stats t') = insert_ops (stats t)" "delete_ops (stats t') = delete_ops (stats t)"
    by (subst e, simp)+
qed

lemma hot_only_off: "hot_only t t' \<Longrightarrow> \<not> collect_stats t \<Longrightarrow> t' = t"
  by (auto simp: hot_only_def)

lemma hot_only_count_visit: "hot_only t (count_visit t)"
  by (simp add: hot_only_def count_visit_def)

lemma hot_only_tbs:
  assumes "tree_binary_search t node key = Some (p, f, t')"
  shows "hot_only t t'"
proof (cases "collect_stats t")
  case True
  with assms show ?thesis
    by (auto simp: tree_binary_search_def hot_only_def split: Option.bind_splits option.splits)
next
  case False
  with assms obtain c where "node_binary_search node key None = Some (p, f, c)"
    and t': "t' = (case c of None \<Rightarrow> t | Some x \<Rightarrow> t\<lparr>stats := (stats t)\<lparr>comparisons := x\<rparr>\<rparr>)"
    by (auto simp: tree_binary_search_def split: Option.bind_splits)
  then have "c = None" using bs_loop_ptr by (auto simp: node_binary_search_def)
  with t' show ?thesis by (simp add: hot_only_refl)
qed

lemma tbs_proj:
  "map_option (\<lambda>(p, f, t). (p, f)) (tree_binary_search t node key)
     = map_option (\<lambda>(p, f, c). (p, f))
         (node_binary_search node key
            (if collect_stats t then Some (comparisons (stats t)) else None))"
  by (cases "node_binary_search node key
               (if collect_stats t then Some (comparisons (stats t)) else None)")
     (auto simp: tree_binary_search_def)

lemma tbs_indep:
  "map_option (\<lambda>(p, f, t). (p, f)) (tree_binary_search t1 node key)
     = map_option (\<lambda>(p, f, t). (p, f)) (tree_binary_search t2 node key)"
  unfolding tbs_proj node_binary_search_def by (rule bs_loop_indep)

lemma tbs_indep_Some:
  assumes "tree_binary_search t1 node key = Some (p, f, t1')"
  shows "\<exists>t2'. tree_binary_search t2 node key = Some (p, f, t2')"
  using tbs_indep[of t1 node key t2] assms by (auto simp: map_option_case split: option.splits)

lemma tbs_indep_None:
  assumes "tree_binary_search t1 node key = None"
  shows "tree_binary_search t2 node key = None"
  using tbs_indep[of t1 node key t2] assms by (auto simp: map_option_case split: option.splits)

text \<open>The walk of \<^verbatim>\<open>btree_search\<close> touches nothing but the two hot-path counters.\<close>

lemma search_loop_hot_only:
  "search_loop t node key slot = Some (st, v, t') \<Longrightarrow> hot_only t t'"
proof (induction t node key slot arbitrary: st v t' rule: search_loop.induct)
  case (1 tree key slot)
  then show ?case by (simp add: search_loop.simps hot_only_refl)
next
  case (2 tree node key slot)
  from "2.prems" obtain pos found t1 where
    tbs: "tree_binary_search (count_visit tree) node key = Some (pos, found, t1)"
    by (auto simp: search_loop.simps Let_def split: Option.bind_splits)
  have h1: "hot_only tree t1"
    using hot_only_trans[OF hot_only_count_visit hot_only_tbs[OF tbs]] .
  show ?case
  proof (cases "found \<or> is_leaf node")
    case True
    with "2.prems" tbs have "t' = t1"
      by (auto simp: search_loop.simps Let_def split: Option.bind_splits if_splits)
    with h1 show ?thesis by simp
  next
    case False
    with "2.prems" tbs obtain c where c: "rd (children node) pos = Some c"
      and rec: "search_loop t1 c key slot = Some (st, v, t')"
      by (auto simp: search_loop.simps Let_def split: Option.bind_splits if_splits)
    have "hot_only t1 t'"
      using "2.IH"[OF refl tbs refl refl _ _ c rec] False by simp
    with h1 show ?thesis by (rule hot_only_trans)
  qed
qed

text \<open>The status and the value written do not depend on the counters.\<close>

lemma search_loop_indep:
  "map_option (\<lambda>(st, v, t). (st, v)) (search_loop t1 node key slot)
     = map_option (\<lambda>(st, v, t). (st, v)) (search_loop t2 node key slot)"
proof (induction t1 node key slot arbitrary: t2 rule: search_loop.induct)
  case (1 tree key slot)
  then show ?case by (simp add: search_loop.simps)
next
  case (2 tree node key slot)
  show ?case
  proof (cases "tree_binary_search (count_visit tree) node key")
    case None
    then have "tree_binary_search (count_visit t2) node key = None" by (rule tbs_indep_None)
    with None show ?thesis by (simp add: search_loop.simps Let_def)
  next
    case (Some r)
    obtain pos found ta where r: "r = (pos, found, ta)" by (cases r)
    with Some obtain tb where
      tb: "tree_binary_search (count_visit t2) node key = Some (pos, found, tb)"
      using tbs_indep_Some by blast
    show ?thesis
    proof (cases "found \<or> is_leaf node")
      case True
      then show ?thesis using Some r tb by (auto simp: search_loop.simps Let_def split: Option.bind_splits)
    next
      case False
      show ?thesis
      proof (cases "rd (children node) pos")
        case None
        then show ?thesis using Some r tb False by (simp add: search_loop.simps Let_def)
      next
        case (Some c)
        have "map_option (\<lambda>(st, v, t). (st, v)) (search_loop ta c key slot)
                = map_option (\<lambda>(st, v, t). (st, v)) (search_loop tb c key slot)"
          using "2.IH"[OF refl \<open>tree_binary_search (count_visit tree) node key = Some r\<close>
                  r[symmetric] refl _ _ Some] False by simp
        then show ?thesis
          using \<open>tree_binary_search (count_visit tree) node key = Some r\<close> r tb False Some
          by (simp add: search_loop.simps Let_def)
      qed
    qed
  qed
qed

lemma tbs_props:
  assumes "num_keys node \<le> length (keys node)" and "sorted (live_keys node)"
    and "num_keys node < 2 ^ 30"
  shows "\<exists>pos found t'. tree_binary_search t node key = Some (pos, found, t')
           \<and> 0 \<le> pos \<and> pos \<le> int (num_keys node)
           \<and> (found \<longleftrightarrow> key \<in> set (live_keys node))
           \<and> (found \<longrightarrow> pos < int (num_keys node) \<and> keys node ! nat pos = key)
           \<and> (\<not> found \<longrightarrow> pos = int (length (filter (\<lambda>k. k < key) (live_keys node))))"
proof -
  from node_binary_search_props[OF assms,
      of key "if collect_stats t then Some (comparisons (stats t)) else None"]
  obtain pos found c' where
    "node_binary_search node key
       (if collect_stats t then Some (comparisons (stats t)) else None) = Some (pos, found, c')"
    and p: "0 \<le> pos" "pos \<le> int (num_keys node)" "found \<longleftrightarrow> key \<in> set (live_keys node)"
      "found \<longrightarrow> pos < int (num_keys node) \<and> keys node ! nat pos = key"
      "\<not> found \<longrightarrow> pos = int (length (filter (\<lambda>k. k < key) (live_keys node)))"
    by blast
  then have "\<exists>t'. tree_binary_search t node key = Some (pos, found, t')"
    by (simp add: tree_binary_search_def)
  with p show ?thesis by blast
qed

lemma descent_path_nonempty: "descent_path (Some m) key \<noteq> []"
  by (simp add: descent_path.simps)

lemma node_ok_child:
  assumes "node_ok node" "\<not> is_leaf node" "0 \<le> pos" "pos \<le> int (num_keys node)"
  shows "\<exists>m. rd (children node) pos = Some (Some m) \<and> node_ok m \<and> hgt m < hgt node"
proof -
  from assms(1,2) have len: "num_keys node < length (children node)"
    and all: "list_all (\<lambda>c. case c of None \<Rightarrow> False | Some m \<Rightarrow> node_ok m)
                (take (Suc (num_keys node)) (children node))"
    by (auto simp: node_ok.simps[of node])
  have inr: "nat pos < length (take (Suc (num_keys node)) (children node))"
    using assms(3,4) len by auto
  have "take (Suc (num_keys node)) (children node) ! nat pos = children node ! nat pos"
    using assms(3,4) by auto
  with all inr have "case children node ! nat pos of None \<Rightarrow> False | Some m \<Rightarrow> node_ok m"
    by (metis list_all_length)
  then obtain m where m: "children node ! nat pos = Some m" "node_ok m"
    by (auto split: option.splits)
  have rd: "rd (children node) pos = Some (Some m)"
    using assms(3,4) len m by (auto simp: rd_def)
  moreover have "hgt m < hgt node" using rd_child_hgt[OF rd] by (simp add: hgt_o_def)
  ultimately show ?thesis using m by blast
qed

text \<open>The walk of \<^verbatim>\<open>btree_search\<close> from a well-formed node.\<close>

lemma search_loop_correct:
  assumes "node_ok node"
  shows "\<exists>st v t'. search_loop tree (Some node) key slot = Some (st, v, t')
    \<and> (st = BTREE_OK \<or> st = BTREE_ERROR_NOT_FOUND)
    \<and> (st = BTREE_OK \<longleftrightarrow> (\<exists>n \<in> set (descent_path (Some node) key). key \<in> set (live_keys n)))
    \<and> (st = BTREE_OK \<longrightarrow> key \<in> set (live_keys (last (descent_path (Some node) key))))
    \<and> (st = BTREE_ERROR_NOT_FOUND \<longrightarrow> is_leaf (last (descent_path (Some node) key)))
    \<and> (v \<noteq> None \<longleftrightarrow> st = BTREE_OK \<and> slot \<and> is_leaf (last (descent_path (Some node) key)))
    \<and> (\<forall>x. v = Some x \<longrightarrow>
          (\<exists>i. i < num_keys (last (descent_path (Some node) key))
             \<and> keys (last (descent_path (Some node) key)) ! i = key
             \<and> vals (last (descent_path (Some node) key)) ! i = x))"
  using assms
proof (induction "hgt node" arbitrary: node tree rule: less_induct)
  case less
  note ok = \<open>node_ok node\<close>
  from ok have nk: "num_keys node \<le> length (keys node)" and srt: "sorted (live_keys node)"
    and bnd: "num_keys node < 2 ^ 30"
    by (auto simp: node_ok.simps[of node])
  from tbs_props[OF nk srt bnd, of "count_visit tree" key]
  obtain pos found t1 where
    tbs: "tree_binary_search (count_visit tree) node key = Some (pos, found, t1)"
    and pos: "0 \<le> pos" "pos \<le> int (num_keys node)"
    and mem: "found \<longleftrightarrow> key \<in> set (live_keys node)"
    and fnd: "found \<longrightarrow> pos < int (num_keys node) \<and> keys node ! nat pos = key"
    and cnt: "\<not> found \<longrightarrow> pos = int (length (filter (\<lambda>k. k < key) (live_keys node)))"
    by blast
  show ?case
  proof (cases found)
    case True
    have path: "descent_path (Some node) key = [node]"
      using True mem by (simp add: descent_path.simps)
    show ?thesis
    proof (cases "slot \<and> is_leaf node")
      case sl: True
      then have "num_keys node \<le> length (vals node)" using ok by (auto simp: node_ok.simps[of node])
      with fnd True pos have rd: "rd (vals node) pos = Some (vals node ! nat pos)"
        by (auto simp: rd_def)
      have "search_loop tree (Some node) key slot = Some (BTREE_OK, Some (vals node ! nat pos), t1)"
        using tbs True sl rd by (simp add: search_loop.simps Let_def)
      moreover have "nat pos < num_keys node" using fnd True pos by auto
      ultimately show ?thesis using path True mem sl fnd by auto
    next
      case False
      then have "search_loop tree (Some node) key slot = Some (BTREE_OK, None, t1)"
        using tbs True by (auto simp: search_loop.simps Let_def)
      then show ?thesis using path True mem False by auto
    qed
  next
    case nf: False
    show ?thesis
    proof (cases "is_leaf node")
      case True
      have path: "descent_path (Some node) key = [node]"
        using True by (simp add: descent_path.simps)
      have "search_loop tree (Some node) key slot = Some (BTREE_ERROR_NOT_FOUND, None, t1)"
        using tbs nf True by (simp add: search_loop.simps Let_def)
      then show ?thesis using path nf mem True by auto
    next
      case False
      from node_ok_child[OF ok False pos] obtain m where
        rd: "rd (children node) pos = Some (Some m)" and okm: "node_ok m"
        and lt: "hgt m < hgt node" by blast
      have path: "descent_path (Some node) key = node # descent_path (Some m) key"
        using nf mem False cnt rd by (simp add: descent_path.simps)
      have lastp: "last (descent_path (Some node) key) = last (descent_path (Some m) key)"
        using path descent_path_nonempty[of m key] by simp
      have step: "search_loop tree (Some node) key slot = search_loop t1 (Some m) key slot"
        using tbs nf False rd by (simp add: search_loop.simps Let_def)
      have ex: "(\<exists>n \<in> set (descent_path (Some node) key). key \<in> set (live_keys n))
                 \<longleftrightarrow> (\<exists>n \<in> set (descent_path (Some m) key). key \<in> set (live_keys n))"
        using path nf mem by auto
      from less.hyps[OF lt okm, of t1] show ?thesis
        unfolding step lastp ex .
    qed
  qed
qed

lemma op_frame_refl: "op_frame t t"
  by (simp add: op_frame_def)

lemma op_frame_trans: "op_frame a b \<Longrightarrow> op_frame b c \<Longrightarrow> op_frame a c"
  by (auto simp: op_frame_def)

lemma hot_only_op_frame: "hot_only t t' \<Longrightarrow> op_frame t t'"
  using hot_only_fields[of t t'] hot_only_off[of t t'] by (auto simp: op_frame_def)

lemma split_child_op_frame:
  "split_child t parent i child = Some (st, t', parent') \<Longrightarrow> op_frame t t'"
  by (auto simp: split_child_def Let_def op_frame_def split: Option.bind_splits)

lemma insert_leaf_op_frame:
  assumes "insert_leaf t node key val = Some (st, t', node')"
  shows "op_frame t t'"
proof -
  from assms obtain pos found t1 where
    tbs: "tree_binary_search t node key = Some (pos, found, t1)"
    and t': "t' = t1 \<or> t' = t1\<lparr>stats := (stats t1)\<lparr>key_count := key_count (stats t1) + 1\<rparr>\<rparr>"
    by (auto simp: insert_leaf_def Let_def split: Option.bind_splits if_splits)
  have "op_frame t t1" using hot_only_op_frame[OF hot_only_tbs[OF tbs]] .
  moreover have "op_frame t1 t'" using t' by (auto simp: op_frame_def)
  ultimately show ?thesis by (rule op_frame_trans)
qed

lemma insert_descend_op_frame:
  assumes "insert_descend t node key = Some (st, t', node', pos)"
  shows "op_frame t t'"
proof -
  from assms obtain p found t1 where
    tbs: "tree_binary_search t node key = Some (p, found, t1)"
    and t': "t' = t1 \<or> (\<exists>i c s n. split_child t1 node i c = Some (s, t', n))"
    by (auto simp: insert_descend_def Let_def split: Option.bind_splits if_splits) blast+
  have "op_frame t t1" using hot_only_op_frame[OF hot_only_tbs[OF tbs]] .
  moreover have "op_frame t1 t'" using t' by (auto simp: op_frame_refl dest: split_child_op_frame)
  ultimately show ?thesis by (rule op_frame_trans)
qed

lemma insert_nonfull_op_frame:
  "insert_nonfull t node key val = Some (st, t', node') \<Longrightarrow> op_frame t t'"
proof (induction t node key val arbitrary: st t' node' rule: insert_nonfull.induct)
  case (1 tree node key val)
  have cv: "op_frame tree (count_visit tree)"
    using hot_only_op_frame[OF hot_only_count_visit] .
  show ?case
  proof (cases "is_leaf node")
    case True
    with "1.prems" have "insert_leaf (count_visit tree) node key val = Some (st, t', node')"
      by (simp add: insert_nonfull.simps[of tree node] Let_def)
    then show ?thesis using cv insert_leaf_op_frame op_frame_trans by blast
  next
    case False
    with "1.prems" obtain s2 t2 n2 pos where
      d: "insert_descend (count_visit tree) node key = Some (s2, t2, n2, pos)"
      by (auto simp: insert_nonfull.simps[of tree node] Let_def split: Option.bind_splits)
    have f2: "op_frame tree t2" using cv insert_descend_op_frame[OF d] op_frame_trans by blast
    show ?thesis
    proof (cases "s2 = BTREE_OK")
      case ne: False
      with "1.prems" False d have "t' = t2"
        by (auto simp: insert_nonfull.simps[of tree node] Let_def split: Option.bind_splits)
      with f2 show ?thesis by simp
    next
      case True
      with "1.prems" False d obtain c child s3 n3 where
        c: "rd (children n2) pos = Some c" "c = Some child"
        and rec: "insert_nonfull t2 child key val = Some (s3, t', n3)"
        by (auto simp: insert_nonfull.simps[of tree node] Let_def split: Option.bind_splits)
      have "op_frame t2 t'"
        using "1.IH"[OF refl False d refl refl refl _ c(1) _ rec] True c(2) by simp
      with f2 show ?thesis by (rule op_frame_trans)
    qed
  qed
qed

lemma btree_insert_op_frame:
  assumes "btree_insert t key val = Some (st, t')" "root t = Some r"
  shows "op_frame (t\<lparr>stats := (stats t)\<lparr>insert_ops :=
            insert_ops (stats t) + (if collect_stats t then 1 else 0)\<rparr>\<rparr>) t'"
proof -
  define t0 where "t0 = (if collect_stats t
       then t\<lparr>stats := (stats t)\<lparr>insert_ops := insert_ops (stats t) + 1\<rparr>\<rparr> else t)"
  have t0: "t0 = t\<lparr>stats := (stats t)\<lparr>insert_ops :=
            insert_ops (stats t) + (if collect_stats t then 1 else 0)\<rparr>\<rparr>"
    by (simp add: t0_def)
  have ro: "op_frame a (b\<lparr>root := x\<rparr>) = op_frame a b" for a b x
    by (simp add: op_frame_def)
  show ?thesis
  proof (cases "num_keys r = u32_sub (order t0) 1")
    case False
    with assms obtain t1 r1 where "insert_nonfull t0 r key val = Some (st, t1, r1)"
      and "t' = t1\<lparr>root := Some r1\<rparr>"
      by (auto simp: btree_insert_def Let_def t0_def[symmetric] split: Option.bind_splits)
    then show ?thesis using insert_nonfull_op_frame[of t0 r key val st t1 r1] by (simp add: ro t0)
  next
    case True
    define t1 where "t1 = t0\<lparr>root := Some (set_children (node_create (order t0) False)
        (the (wr (children (node_create (order t0) False)) 0 (Some r)))),
      stats := (stats t0)\<lparr>node_count := node_count (stats t0) + 1,
                           height := height (stats t0) + 1\<rparr>\<rparr>"
    have f1: "op_frame t0 t1" by (simp add: op_frame_def t1_def)
    from assms True obtain nr s2 t2 r2 where
      sp: "split_child t1 nr 0 r = Some (s2, t2, r2)"
      and rest: "(s2 \<noteq> BTREE_OK \<and> t' = t2\<lparr>root := Some r2\<rparr>)
         \<or> (\<exists>t3 r3. insert_nonfull t2 r2 key val = Some (st, t3, r3) \<and> t' = t3\<lparr>root := Some r3\<rparr>)"
      by (auto simp: btree_insert_def Let_def t0_def[symmetric] t1_def split: Option.bind_splits if_splits)
    have f2: "op_frame t0 t2" using f1 split_child_op_frame[OF sp] op_frame_trans by blast
    from rest have "op_frame t2 t'"
      by (auto simp: ro op_frame_refl dest: insert_nonfull_op_frame)
    with f2 have "op_frame t0 t'" by (rule op_frame_trans)
    then show ?thesis by (simp add: t0)
  qed
qed

lemma btree_search_hot_only:
  assumes "btree_search t key slot = Some (st, v, t')"
  shows "hot_only (if collect_stats t \<and> root t \<noteq> None
                   then t\<lparr>stats := (stats t)\<lparr>search_ops := search_ops (stats t) + 1\<rparr>\<rparr>
                   else t) t'"
proof (cases "root t")
  case None
  with assms show ?thesis by (simp add: btree_search_def hot_only_refl)
next
  case (Some r)
  with assms show ?thesis
    by (auto simp: btree_search_def dest: search_loop_hot_only split: if_splits)
qed

lemma btree_search_indep:
  assumes "root t1 = root t2"
  shows "map_option (\<lambda>(st, v, t). (st, v)) (btree_search t1 key slot)
           = map_option (\<lambda>(st, v, t). (st, v)) (btree_search t2 key slot)"
  using assms search_loop_indep by (auto simp: btree_search_def split: option.splits)

lemma btree_search_indep_Some:
  assumes "btree_search t1 key slot = Some (st, v, t1')" "root t1 = root t2"
  shows "\<exists>t2'. btree_search t2 key slot = Some (st, v, t2')"
  using btree_search_indep[OF assms(2), of key slot] assms(1)
  by (auto simp: map_option_case split: option.splits)

lemma btree_search_root:
  assumes "btree_search t key slot = Some (st, v, t')"
  shows "root t' = root t" "key_count (stats t') = key_count (stats t)"
    "delete_ops (stats t') = delete_ops (stats t)" "collect_stats t' = collect_stats t"
    "search_ops (stats t') = search_ops (stats t) + (if collect_stats t \<and> root t \<noteq> None then 1 else 0)"
    "\<not> collect_stats t \<Longrightarrow> t' = t"
  using hot_only_fields[OF btree_search_hot_only[OF assms]]
    hot_only_off[OF btree_search_hot_only[OF assms]]
  by (auto split: if_splits)

text \<open>What \<^verbatim>\<open>btree_delete\<close> returns, in terms of the search it makes.\<close>

lemma btree_delete_Some:
  assumes "btree_delete t key = Some (st, t')"
  obtains v ts where
    "btree_search (if collect_stats t
                   then t\<lparr>stats := (stats t)\<lparr>delete_ops := delete_ops (stats t) + 1\<rparr>\<rparr>
                   else t) key True = Some (st, v, ts)"
    "t' = (if st = BTREE_OK
           then ts\<lparr>stats := (stats ts)\<lparr>key_count := key_count (stats ts) - 1\<rparr>\<rparr> else ts)"
  using assms by (auto simp: btree_delete_def Let_def split: Option.bind_splits if_splits)

lemma btree_delete_props:
  assumes "btree_delete t key = Some (st, t')"
  shows "root t' = root t"
    and "key_count (stats t') = (if st = BTREE_OK then key_count (stats t) - 1 else key_count (stats t))"
    and "delete_ops (stats t') = delete_ops (stats t) + (if collect_stats t then 1 else 0)"
    and "search_ops (stats t') = search_ops (stats t) + (if collect_stats t \<and> root t \<noteq> None then 1 else 0)"
    and "collect_stats t' = collect_stats t"
    and "\<not> collect_stats t \<Longrightarrow> comparisons (stats t') = comparisons (stats t)
           \<and> node_visits (stats t') = node_visits (stats t)"
    and "\<exists>v ts. btree_search t key True = Some (st, v, ts)"
    and "\<exists>v ts. btree_search t' key True = Some (st, v, ts)"
proof -
  define t0 where "t0 = (if collect_stats t
                   then t\<lparr>stats := (stats t)\<lparr>delete_ops := delete_ops (stats t) + 1\<rparr>\<rparr>
                   else t)"
  from btree_delete_Some[OF assms] obtain v ts where
    s: "btree_search t0 key True = Some (st, v, ts)"
    and t': "t' = (if st = BTREE_OK
           then ts\<lparr>stats := (stats ts)\<lparr>key_count := key_count (stats ts) - 1\<rparr>\<rparr> else ts)"
    unfolding t0_def by blast
  note f = btree_search_root[OF s]
  have r0: "root t0 = root t" "collect_stats t0 = collect_stats t"
    "key_count (stats t0) = key_count (stats t)"
    "search_ops (stats t0) = search_ops (stats t)"
    "delete_ops (stats t0) = delete_ops (stats t) + (if collect_stats t then 1 else 0)"
    by (auto simp: t0_def)
  show "root t' = root t" using f(1) r0 t' by simp
  show "key_count (stats t') = (if st = BTREE_OK then key_count (stats t) - 1 else key_count (stats t))"
    using f(2) r0 t' by simp
  show "delete_ops (stats t') = delete_ops (stats t) + (if collect_stats t then 1 else 0)"
    using f(3) r0 t' by simp
  show "search_ops (stats t') = search_ops (stats t) + (if collect_stats t \<and> root t \<noteq> None then 1 else 0)"
    using f(5) r0 t' by simp
  show "collect_stats t' = collect_stats t" using f(4) r0 t' by simp
  show "comparisons (stats t') = comparisons (stats t)
           \<and> node_visits (stats t') = node_visits (stats t)" if "\<not> collect_stats t"
    using f(6) that r0 t' by (auto simp: t0_def)
  show "\<exists>v ts. btree_search t key True = Some (st, v, ts)"
    using btree_search_indep_Some[OF s, of t] r0 by auto
  show "\<exists>v ts. btree_search t' key True = Some (st, v, ts)"
    using btree_search_indep_Some[OF s, of t'] \<open>root t' = root t\<close> r0 by auto
qed

lemma search_loop_status:
  "search_loop t node key slot = Some (st, v, t')
     \<Longrightarrow> st = BTREE_OK \<or> st = BTREE_ERROR_NOT_FOUND"
proof (induction t node key slot arbitrary: st v t' rule: search_loop.induct)
  case (1 tree key slot)
  then show ?case by (simp add: search_loop.simps)
next
  case (2 tree node key slot)
  from "2.prems" obtain pos found t1 where
    tbs: "tree_binary_search (count_visit tree) node key = Some (pos, found, t1)"
    by (auto simp: search_loop.simps Let_def split: Option.bind_splits)
  show ?case
  proof (cases "found \<or> is_leaf node")
    case True
    with "2.prems" tbs show ?thesis
      by (auto simp: search_loop.simps Let_def split: Option.bind_splits if_splits)
  next
    case False
    with "2.prems" tbs obtain c where c: "rd (children node) pos = Some c"
      and rec: "search_loop t1 c key slot = Some (st, v, t')"
      by (auto simp: search_loop.simps Let_def split: Option.bind_splits if_splits)
    show ?thesis using "2.IH"[OF refl tbs refl refl _ _ c rec] False by simp
  qed
qed

lemma btree_search_status:
  assumes "btree_search t key slot = Some (st, v, t')"
  shows "(root t = None \<longrightarrow> st = BTREE_ERROR_INVALID)
       \<and> (root t \<noteq> None \<longrightarrow> st = BTREE_OK \<or> st = BTREE_ERROR_NOT_FOUND)"
  using assms by (auto simp: btree_search_def dest: search_loop_status split: option.splits)

lemma btree_search_returns:
  assumes "root tree = Some r" and "node_ok r"
  shows "\<exists>st v t'. btree_search tree key slot = Some (st, v, t')"
proof -
  define t0 where "t0 = (if collect_stats tree
             then tree\<lparr>stats := (stats tree)\<lparr>search_ops := search_ops (stats tree) + 1\<rparr>\<rparr>
             else tree)"
  have s: "btree_search tree key slot = search_loop t0 (Some r) key slot"
    using assms(1) by (simp add: btree_search_def t0_def)
  from search_loop_correct[OF assms(2), of t0 key slot]
  show ?thesis unfolding s by blast
qed

lemmas ok_simps = node_ok.simps live_keys_def descent_path.simps

lemma delete_times_ok:
  assumes "btree_delete tree key = Some (BTREE_OK, t1)"
  shows "\<exists>t'. delete_times n tree key = Some (replicate n BTREE_OK, t')
           \<and> key_count (stats t') = key_count (stats tree) - of_nat n
           \<and> root t' = root tree"
  using assms
proof (induction n arbitrary: tree t1)
  case 0
  then show ?case by simp
next
  case (Suc n)
  note p = btree_delete_props[OF Suc.prems]
  from p(8) obtain v ts where s1: "btree_search t1 key True = Some (BTREE_OK, v, ts)" by blast
  define t0 where "t0 = (if collect_stats t1
        then t1\<lparr>stats := (stats t1)\<lparr>delete_ops := delete_ops (stats t1) + 1\<rparr>\<rparr>
        else t1)"
  have "root t1 = root t0" by (simp add: t0_def)
  from btree_search_indep_Some[OF s1 this] obtain ts' where
    "btree_search t0 key True = Some (BTREE_OK, v, ts')" by blast
  then obtain t2 where d2: "btree_delete t1 key = Some (BTREE_OK, t2)"
    by (simp add: btree_delete_def t0_def[symmetric])
  from Suc.IH[OF d2] obtain t' where
    r: "delete_times n t1 key = Some (replicate n BTREE_OK, t')"
    "key_count (stats t') = key_count (stats t1) - of_nat n" "root t' = root t1" by blast
  have "delete_times (Suc n) tree key = Some (replicate (Suc n) BTREE_OK, t')"
    using Suc.prems r(1) by simp
  moreover have "key_count (stats t') = key_count (stats tree) - of_nat (Suc n)"
    using r(2) p(2) by simp
  ultimately show ?case using r(3) p(1) by auto
qed

lemma u32_sub_le:
  assumes "b \<le> a" "a < 2 ^ 32"
  shows "u32_sub a b = a - b"
proof -
  have a: "a < 4294967296" using assms(2) by simp
  then have b: "b mod 4294967296 = b" using assms(1) by (intro mod_less) linarith
  have "a + 4294967296 - b = (a - b) + 4294967296" using assms(1) by linarith
  then have "(a + 4294967296 - b) mod 4294967296 = (a - b) mod 4294967296"
    by (simp only: mod_add_self2)
  also have "\<dots> = a - b" using a by (intro mod_less) linarith
  finally show ?thesis by (simp add: u32_sub_def b)
qed

lemma one_key_tree:
  assumes "3 \<le> m" "m \<le> 1024"
  shows "do { t \<leftarrow> btree_create m; btree_insert t k v }
     = Some (BTREE_OK,
         \<lparr>root = Some (Node ((replicate (m - 1) 0)[0 := k]) ((replicate (m - 1) 0)[0 := v]) [] 1 True),
          order = m, min_keys = (m - 1) div 2,
          stats = stats_zero\<lparr>node_count := 1, key_count := 1, height := 1,
                              node_visits := 1, insert_ops := 1\<rparr>,
          collect_stats = True\<rparr>)"
proof -
  have u: "u32_sub m (Suc 0) = m - Suc 0" using assms by (intro u32_sub_le) auto
  have ne: "0 \<noteq> m - Suc 0" "0 < m - Suc 0" using assms by auto
  show ?thesis
    using assms ne
    by (simp add: btree_create_def BTREE_MIN_ORDER_def BTREE_MAX_ORDER_def btree_insert_def u
          node_create_def insert_nonfull.simps count_visit_def insert_leaf_def
          tree_binary_search_def node_binary_search_def node_binary_search_loop.simps
          shift_leaf_def wr_def set_keys_def set_vals_def set_num_keys_def stats_zero_def
          int_of_u32_def u32_inc_def Let_def upto.simps cong: eval_congs)
qed

lemma delete_search_eval_simps:
  "0 < n \<Longrightarrow> rd ((replicate n x)[0 := y]) 0 = Some y"
  by (simp add: rd_def)

lemma unat_minus_one_u64: "unat (- 1 :: u64) = 18446744073709551615"
  by (simp add: unsigned_minus_1_eq_mask mask_eq_exp_minus_1)

section \<open>The search primitive\<close>

text \<open>
  \<^bold>\<open>C5.\<close> For a node whose first \<^verbatim>\<open>num_keys\<close> keys lie inside the key array and are
  strictly increasing (there are fewer than \<open>2\<^sup>3\<^sup>0\<close> of them, so that \<^verbatim>\<open>lwr + upr\<close> does not
  overflow; a node of this program has at most 1023), and for every query key, \<^verbatim>\<open>node_binary_search\<close> returns (it has
  no undefined behaviour) an index between 0 and \<^verbatim>\<open>num_keys\<close>. \<^verbatim>\<open>found\<close> is true exactly
  when the key is among the node's keys, and then the index is the place of the key.
  Otherwise every key before the index is smaller than the query and every key from the
  index on is greater: the index is that of the first key greater than the query, and
  \<^verbatim>\<open>num_keys\<close> when there is none.
\<close>

theorem node_binary_search_correct:
  assumes "num_keys node \<le> length (keys node)" and "num_keys node < 2 ^ 30"
    and "sorted_wrt (<) (live_keys node)"
  shows "\<exists>pos found c'. node_binary_search node key c = Some (pos, found, c')
           \<and> 0 \<le> pos \<and> pos \<le> int (num_keys node)
           \<and> (found \<longleftrightarrow> key \<in> set (live_keys node))
           \<and> (found \<longrightarrow> pos < int (num_keys node) \<and> keys node ! nat pos = key)
           \<and> (\<not> found \<longrightarrow> (\<forall>i. i < nat pos \<longrightarrow> keys node ! i < key)
                 \<and> (\<forall>i. nat pos \<le> i \<and> i < num_keys node \<longrightarrow> key < keys node ! i))"
proof -
  obtain pos found c' where r: "node_binary_search node key c = Some (pos, found, c')"
    and b: "0 \<le> pos" "pos \<le> int (num_keys node)"
    and f: "found \<longrightarrow> pos < int (num_keys node) \<and> keys node ! nat pos = key"
    and nf: "\<not> found \<longrightarrow> (\<forall>i. i < nat pos \<longrightarrow> keys node ! i < key)
                 \<and> (\<forall>i. nat pos \<le> i \<and> i < num_keys node \<longrightarrow> key < keys node ! i)"
    using bs_loop_correct[of "num_keys node" "keys node" 0 "int (num_keys node) - 1" key c] assms
      int_of_u32_small[of "num_keys node"] strict_sorted_imp_sorted[of "live_keys node"]
    unfolding node_binary_search_def live_keys_def by auto
  have "found \<longleftrightarrow> key \<in> set (live_keys node)"
  proof
    assume found
    with f b have "nat pos < num_keys node" "keys node ! nat pos = key" by auto
    then show "key \<in> set (live_keys node)"
      using assms(1) by (auto simp: live_keys_def in_set_conv_nth intro!: exI[of _ "nat pos"])
  next
    assume "key \<in> set (live_keys node)"
    then obtain i where i: "i < num_keys node" "keys node ! i = key"
      using assms(1) by (auto simp: live_keys_def in_set_conv_nth)
    show found
    proof (rule ccontr)
      assume "\<not> found"
      with nf have lo: "\<forall>j. j < nat pos \<longrightarrow> keys node ! j < key"
        and hi: "\<forall>j. nat pos \<le> j \<and> j < num_keys node \<longrightarrow> key < keys node ! j" by auto
      show False
      proof (cases "i < nat pos")
        case True
        with lo i show False by auto
      next
        case False
        then have "key < keys node ! i" using hi i(1) by auto
        with i show False by simp
      qed
    qed
  qed
  with r b f nf show ?thesis by blast
qed

theorem node_binary_search_correct_witness:
  "num_keys (Node [1, 3, 5, 0] [] [] 3 True) \<le> length (keys (Node [1, 3, 5, 0] [] [] 3 True))
   \<and> num_keys (Node [1, 3, 5, 0] [] [] 3 True) < 2 ^ 30
   \<and> sorted_wrt (<) (live_keys (Node [1, 3, 5, 0] [] [] 3 True))
   \<and> node_binary_search (Node [1, 3, 5, 0] [] [] 3 True) 4 None = Some (2, False, None)
   \<and> node_binary_search (Node [1, 3, 5, 0] [] [] 3 True) 5 (Some 7) = Some (2, True, Some 9)
   \<and> node_binary_search (Node [1, 3, 5, 0] [] [] 3 True) 9 None = Some (3, False, None)"
  using node_binary_search_correct[of "Node [1, 3, 5, 0] [] [] 3 True" 4 None]
  by (simp add: live_keys_def node_binary_search_def node_binary_search_loop.simps rd_def
        int_of_u32_def)

section \<open>Search\<close>

text \<open>
  \<^bold>\<open>C6.\<close> On a tree whose nodes are well formed, \<^verbatim>\<open>btree_search\<close> returns (it has no
  undefined behaviour) ok or not-found, and leaves the nodes as they are. It returns ok
  exactly when a node of the descent path holds the key; that node is then the last of
  the path. The value slot is written exactly when the status is ok, a slot was passed
  and that last node is a leaf, and what is written is the value stored beside the key;
  so a key found in an internal node (a promoted separator) gives ok with the slot left
  alone. Not-found is returned at a leaf of the path that does not hold the key.
\<close>

theorem btree_search_correct:
  assumes "root tree = Some r" and "node_ok r"
  shows "\<exists>st v t'. btree_search tree key slot = Some (st, v, t')
    \<and> root t' = root tree
    \<and> (st = BTREE_OK \<or> st = BTREE_ERROR_NOT_FOUND)
    \<and> (st = BTREE_OK \<longleftrightarrow> (\<exists>n \<in> set (descent_path (root tree) key). key \<in> set (live_keys n)))
    \<and> (st = BTREE_OK \<longrightarrow> key \<in> set (live_keys (last (descent_path (root tree) key))))
    \<and> (st = BTREE_ERROR_NOT_FOUND \<longrightarrow> is_leaf (last (descent_path (root tree) key)))
    \<and> (v \<noteq> None \<longleftrightarrow> st = BTREE_OK \<and> slot \<and> is_leaf (last (descent_path (root tree) key)))
    \<and> (\<forall>x. v = Some x \<longrightarrow>
          (\<exists>i. i < num_keys (last (descent_path (root tree) key))
             \<and> keys (last (descent_path (root tree) key)) ! i = key
             \<and> vals (last (descent_path (root tree) key)) ! i = x))"
proof -
  define t0 where "t0 = (if collect_stats tree
             then tree\<lparr>stats := (stats tree)\<lparr>search_ops := search_ops (stats tree) + 1\<rparr>\<rparr>
             else tree)"
  have s: "btree_search tree key slot = search_loop t0 (Some r) key slot"
    using assms(1) by (simp add: btree_search_def t0_def)
  from search_loop_correct[OF assms(2), of t0 key slot]
  obtain st v t' where r: "search_loop t0 (Some r) key slot = Some (st, v, t')"
    and p: "st = BTREE_OK \<or> st = BTREE_ERROR_NOT_FOUND"
      "st = BTREE_OK \<longleftrightarrow> (\<exists>n \<in> set (descent_path (Some r) key). key \<in> set (live_keys n))"
      "st = BTREE_OK \<longrightarrow> key \<in> set (live_keys (last (descent_path (Some r) key)))"
      "st = BTREE_ERROR_NOT_FOUND \<longrightarrow> is_leaf (last (descent_path (Some r) key))"
      "v \<noteq> None \<longleftrightarrow> st = BTREE_OK \<and> slot \<and> is_leaf (last (descent_path (Some r) key))"
      "\<forall>x. v = Some x \<longrightarrow>
          (\<exists>i. i < num_keys (last (descent_path (Some r) key))
             \<and> keys (last (descent_path (Some r) key)) ! i = key
             \<and> vals (last (descent_path (Some r) key)) ! i = x)"
    by blast
  have "root t' = root tree"
    using btree_search_root(1)[of tree key slot st v t'] r s by simp
  with r p show ?thesis unfolding s assms(1) by blast
qed

theorem btree_search_correct_witness:
  "\<exists>t r. do { t0 \<leftarrow> btree_create 4; insert_seq t0 [(1, 10), (2, 20), (3, 30), (4, 40)] } = Some t
     \<and> root t = Some r \<and> node_ok r \<and> \<not> is_leaf r \<and> live_keys r = [2]
     \<and> map_option (\<lambda>(st, v, t'). (st, v)) (btree_search t 2 True) = Some (BTREE_OK, None)
     \<and> map_option (\<lambda>(st, v, t'). (st, v)) (btree_search t 4 True) = Some (BTREE_OK, Some 40)
     \<and> map_option (\<lambda>(st, v, t'). (st, v)) (btree_search t 5 True)
          = Some (BTREE_ERROR_NOT_FOUND, None)"
  using btree_search_correct[of
      "the (do { t0 \<leftarrow> btree_create 4; insert_seq t0 [(1, 10), (2, 20), (3, 30), (4, 40)] })"
      "the (root (the (do { t0 \<leftarrow> btree_create 4;
                            insert_seq t0 [(1, 10), (2, 20), (3, 30), (4, 40)] })))"
      2 True]
  by (simp add: eval_simps ok_simps cong: eval_congs)

section \<open>Delete\<close>

text \<open>
  \<^bold>\<open>C7.\<close> \<^verbatim>\<open>btree_delete\<close> returns on every tree whose nodes are well formed. Whenever
  it returns, its status is the status of \<^verbatim>\<open>btree_search\<close> for the key on the same tree,
  and the root with every node below it is unchanged. When the search succeeds the status
  is ok and \<^verbatim>\<open>key_count\<close> is one less (modulo \<open>2\<^sup>6\<^sup>4\<close>); the key is not removed: a search
  on the resulting tree gives the same status again. When the search fails, its status
  (not-found on a tree with a root) is returned and \<^verbatim>\<open>key_count\<close> is unchanged.
\<close>

theorem btree_delete_degenerate:
  "(\<forall>r. root tree = Some r \<longrightarrow> node_ok r \<longrightarrow>
       (\<exists>st tree'. btree_delete tree key = Some (st, tree')))
   \<and> (\<forall>st tree'. btree_delete tree key = Some (st, tree') \<longrightarrow>
         (\<exists>v ts. btree_search tree key True = Some (st, v, ts))
       \<and> root tree' = root tree
       \<and> (st = BTREE_OK \<longrightarrow> key_count (stats tree') = key_count (stats tree) - 1)
       \<and> (st \<noteq> BTREE_OK \<longrightarrow> key_count (stats tree') = key_count (stats tree))
       \<and> (st \<noteq> BTREE_OK \<longrightarrow> root tree \<noteq> None \<longrightarrow> st = BTREE_ERROR_NOT_FOUND)
       \<and> (\<exists>v ts. btree_search tree' key True = Some (st, v, ts)))"
proof (intro conjI allI impI)
  fix r assume r: "root tree = Some r" "node_ok r"
  define t0 where "t0 = (if collect_stats tree
        then tree\<lparr>stats := (stats tree)\<lparr>delete_ops := delete_ops (stats tree) + 1\<rparr>\<rparr>
        else tree)"
  have "root t0 = Some r" using r(1) by (simp add: t0_def)
  from btree_search_returns[OF this r(2), of key True]
  obtain st v ts where "btree_search t0 key True = Some (st, v, ts)" by blast
  then show "\<exists>st tree'. btree_delete tree key = Some (st, tree')"
    by (simp add: btree_delete_def t0_def[symmetric])
next
  fix st tree' assume d: "btree_delete tree key = Some (st, tree')"
  note p = btree_delete_props[OF d]
  show "\<exists>v ts. btree_search tree key True = Some (st, v, ts)" by (rule p(7))
  show "root tree' = root tree" by (rule p(1))
  show "key_count (stats tree') = key_count (stats tree) - 1" if "st = BTREE_OK"
    using p(2) that by simp
  show "key_count (stats tree') = key_count (stats tree)" if "st \<noteq> BTREE_OK"
    using p(2) that by simp
  show "st = BTREE_ERROR_NOT_FOUND" if "st \<noteq> BTREE_OK" "root tree \<noteq> None"
    using p(7) btree_search_status that by blast
  show "\<exists>v ts. btree_search tree' key True = Some (st, v, ts)" by (rule p(8))
qed

theorem btree_delete_degenerate_witness:
  "\<exists>t r. do { t0 \<leftarrow> btree_create 4; insert_seq t0 [(1, 10), (2, 20), (3, 30), (4, 40)] } = Some t
     \<and> root t = Some r \<and> node_ok r
     \<and> map_option (\<lambda>(st, t'). (st, root t' = root t, key_count (stats t), key_count (stats t')))
          (btree_delete t 4) = Some (BTREE_OK, True, 4, 3)
     \<and> map_option (\<lambda>(st, t'). (st, root t' = root t, key_count (stats t), key_count (stats t')))
          (btree_delete t 5) = Some (BTREE_ERROR_NOT_FOUND, True, 4, 4)
     \<and> do { (s1, t1) \<leftarrow> btree_delete t 4; (s2, v, t2) \<leftarrow> btree_search t1 4 True; Some (s2, v) }
          = Some (BTREE_OK, Some 40)"
  using btree_delete_degenerate[of
      "the (do { t0 \<leftarrow> btree_create 4; insert_seq t0 [(1, 10), (2, 20), (3, 30), (4, 40)] })" 4]
  by (simp add: eval_simps ok_simps cong: eval_congs)

section \<open>Deleting a key again\<close>

text \<open>
  \<^bold>\<open>C10.\<close> A \<^verbatim>\<open>btree_delete\<close> that succeeds once for a key succeeds any number of times
  for it: \<open>n\<close> calls in a row all return ok, leave the nodes unchanged and take \<open>n\<close> off the
  64-bit \<^verbatim>\<open>key_count\<close>, modulo \<open>2\<^sup>6\<^sup>4\<close>. For every order from 3 to 1024, every key and every
  value: after \<^verbatim>\<open>btree_create\<close>, one \<^verbatim>\<open>btree_insert\<close> and two \<^verbatim>\<open>btree_delete\<close> of the key,
  all four succeed and \<^verbatim>\<open>btree_size\<close> returns \<open>2\<^sup>6\<^sup>4 - 1\<close>.
\<close>

theorem delete_again_wraps_key_count:
  "(\<forall>t1. btree_delete tree key = Some (BTREE_OK, t1) \<longrightarrow>
      (\<exists>t'. delete_times n tree key = Some (replicate n BTREE_OK, t')
            \<and> key_count (stats t') = key_count (stats tree) - of_nat n
            \<and> root t' = root tree))
   \<and> (3 \<le> m \<and> m \<le> 1024 \<longrightarrow>
        do { (s0, t) \<leftarrow> do { t \<leftarrow> btree_create m; btree_insert t k v };
             (s1, t) \<leftarrow> btree_delete t k;
             (s2, t) \<leftarrow> btree_delete t k;
             Some ([s0, s1, s2], unat (btree_size t)) }
        = Some ([BTREE_OK, BTREE_OK, BTREE_OK], 2 ^ 64 - 1))"
proof (intro conjI allI impI)
  fix t1 assume "btree_delete tree key = Some (BTREE_OK, t1)"
  then show "\<exists>t'. delete_times n tree key = Some (replicate n BTREE_OK, t')
            \<and> key_count (stats t') = key_count (stats tree) - of_nat n
            \<and> root t' = root tree"
    by (rule delete_times_ok)
next
  assume m: "3 \<le> m \<and> m \<le> 1024"
  then have pos: "0 < m - Suc 0" by auto
  have tk: "do { t \<leftarrow> btree_create m; btree_insert t k v }
     = Some (BTREE_OK,
         \<lparr>root = Some (Node ((replicate (m - 1) 0)[0 := k]) ((replicate (m - 1) 0)[0 := v]) [] 1 True),
          order = m, min_keys = (m - 1) div 2,
          stats = stats_zero\<lparr>node_count := 1, key_count := 1, height := 1,
                              node_visits := 1, insert_ops := 1\<rparr>,
          collect_stats = True\<rparr>)"
    using m by (intro one_key_tree) auto
  show "do { (s0, t) \<leftarrow> do { t \<leftarrow> btree_create m; btree_insert t k v };
             (s1, t) \<leftarrow> btree_delete t k;
             (s2, t) \<leftarrow> btree_delete t k;
             Some ([s0, s1, s2], unat (btree_size t)) }
        = Some ([BTREE_OK, BTREE_OK, BTREE_OK], 2 ^ 64 - 1)"
    unfolding tk using pos
    by (simp add: btree_delete_def btree_search_def search_loop.simps count_visit_def
          tree_binary_search_def node_binary_search_def node_binary_search_loop.simps
          delete_search_eval_simps btree_size_def stats_zero_def Let_def unat_minus_one_u64
          int_of_u32_def
          cong: eval_congs)
qed

theorem delete_again_wraps_key_count_witness:
  "\<exists>t. do { t0 \<leftarrow> btree_create 4; insert_seq t0 [(7, 70)] } = Some t
     \<and> map_option fst (btree_delete t 7) = Some BTREE_OK
     \<and> map_option (\<lambda>(sts, t'). (sts, key_count (stats t'), root t' = root t)) (delete_times 3 t 7)
          = Some ([BTREE_OK, BTREE_OK, BTREE_OK], 1 - 3, True)
     \<and> (3::nat) \<le> 4 \<and> (4::nat) \<le> 1024
     \<and> do { (s1, t) \<leftarrow> btree_delete t 7;
            (s2, t) \<leftarrow> btree_delete t 7;
            Some ([s1, s2], unat (btree_size t)) }
        = Some ([BTREE_OK, BTREE_OK], 18446744073709551615)"
  using delete_again_wraps_key_count[of
      "the (do { t0 \<leftarrow> btree_create 4; insert_seq t0 [(7, 70)] })" 7 3 4 7 70]
  by (simp add: eval_simps cong: eval_congs)

section \<open>Statistics\<close>

theorem op_counters_not_unconditional:
  "do { t \<leftarrow> btree_create 4;
        let t = btree_set_stats_collection t False;
        (s1, t1) \<leftarrow> btree_insert t 1 10;
        (s2, v, t2) \<leftarrow> btree_search t1 1 True;
        (s3, t3) \<leftarrow> btree_delete t2 1;
        Some ([s1, s2, s3], v, map (\<lambda>t. key_count (stats t)) [t, t1, t2, t3],
              insert_ops (stats t3), search_ops (stats t3), delete_ops (stats t3)) }
   = Some ([BTREE_OK, BTREE_OK, BTREE_OK], Some 10, [0, 1, 1, 0], 0, 0, 0)"
  by (simp add: eval_simps cong: eval_congs)

text \<open>
  \<^bold>\<open>C4\<close>, as the code has it. The claim: \<^verbatim>\<open>search_ops\<close>, \<^verbatim>\<open>insert_ops\<close> and \<^verbatim>\<open>delete_ops\<close>
  are incremented on every call whether or not statistics collection is enabled. The
  code increments each of them under \<^verbatim>\<open>if (tree->collect_stats)\<close>
  (the evaluation above: with collection off, an insert, a search and a delete
  leave all three at 0 while \<^verbatim>\<open>key_count\<close> follows). What holds: whenever the call
  returns, \<^verbatim>\<open>btree_insert\<close> and \<^verbatim>\<open>btree_search\<close> on a tree with a root and
  \<^verbatim>\<open>btree_delete\<close> on any tree add one to their counter when \<^verbatim>\<open>collect_stats\<close> is set and
  leave it unchanged when it is not; and with \<^verbatim>\<open>collect_stats\<close> unset the three calls also
  leave \<^verbatim>\<open>comparisons\<close> and \<^verbatim>\<open>node_visits\<close> unchanged.
\<close>

theorem op_counters_gated:
  "(\<forall>st t'. btree_insert tree key val = Some (st, t') \<longrightarrow> root tree \<noteq> None \<longrightarrow>
        insert_ops (stats t') = insert_ops (stats tree) + (if collect_stats tree then 1 else 0)
      \<and> (\<not> collect_stats tree \<longrightarrow> comparisons (stats t') = comparisons (stats tree)
                                  \<and> node_visits (stats t') = node_visits (stats tree)))
   \<and> (\<forall>st v t'. btree_search tree key slot = Some (st, v, t') \<longrightarrow> root tree \<noteq> None \<longrightarrow>
        search_ops (stats t') = search_ops (stats tree) + (if collect_stats tree then 1 else 0)
      \<and> (\<not> collect_stats tree \<longrightarrow> comparisons (stats t') = comparisons (stats tree)
                                  \<and> node_visits (stats t') = node_visits (stats tree)))
   \<and> (\<forall>st t'. btree_delete tree key = Some (st, t') \<longrightarrow>
        delete_ops (stats t') = delete_ops (stats tree) + (if collect_stats tree then 1 else 0)
      \<and> (\<not> collect_stats tree \<longrightarrow> comparisons (stats t') = comparisons (stats tree)
                                  \<and> node_visits (stats t') = node_visits (stats tree)))"
proof (intro conjI allI impI)
  fix st t' assume i: "btree_insert tree key val = Some (st, t')" and r: "root tree \<noteq> None"
  from r obtain rt where "root tree = Some rt" by auto
  note f = btree_insert_op_frame[OF i this]
  show "insert_ops (stats t') = insert_ops (stats tree) + (if collect_stats tree then 1 else 0)"
    using f by (simp add: op_frame_def)
  show "comparisons (stats t') = comparisons (stats tree)" if "\<not> collect_stats tree"
    using f that by (simp add: op_frame_def)
  show "node_visits (stats t') = node_visits (stats tree)" if "\<not> collect_stats tree"
    using f that by (simp add: op_frame_def)
next
  fix st v t' assume s: "btree_search tree key slot = Some (st, v, t')" and r: "root tree \<noteq> None"
  note f = btree_search_root[OF s]
  show "search_ops (stats t') = search_ops (stats tree) + (if collect_stats tree then 1 else 0)"
    using f(5) r by simp
  show "comparisons (stats t') = comparisons (stats tree)" if "\<not> collect_stats tree"
    using f(6) that by simp
  show "node_visits (stats t') = node_visits (stats tree)" if "\<not> collect_stats tree"
    using f(6) that by simp
next
  fix st t' assume d: "btree_delete tree key = Some (st, t')"
  note p = btree_delete_props[OF d]
  show "delete_ops (stats t') = delete_ops (stats tree) + (if collect_stats tree then 1 else 0)"
    by (rule p(3))
  show "comparisons (stats t') = comparisons (stats tree)" if "\<not> collect_stats tree"
    using p(6) that by simp
  show "node_visits (stats t') = node_visits (stats tree)" if "\<not> collect_stats tree"
    using p(6) that by simp
qed

theorem op_counters_gated_witness:
  "\<exists>t. do { t0 \<leftarrow> btree_create 4; insert_seq t0 [(1, 10), (2, 20), (3, 30)] } = Some t
     \<and> root t \<noteq> None \<and> collect_stats t
     \<and> map_option (\<lambda>(st, t'). (st, insert_ops (stats t), insert_ops (stats t'))) (btree_insert t 4 40)
          = Some (BTREE_OK, 3, 4)
     \<and> map_option (\<lambda>(st, v, t'). (st, search_ops (stats t), search_ops (stats t'))) (btree_search t 2 True)
          = Some (BTREE_OK, 0, 1)
     \<and> map_option (\<lambda>(st, t'). (st, delete_ops (stats t), delete_ops (stats t'))) (btree_delete t 2)
          = Some (BTREE_OK, 0, 1)
     \<and> map_option (\<lambda>(st, t'). (st, insert_ops (stats t'), node_visits (stats t'),
                                  node_visits (stats t)))
          (btree_insert (btree_set_stats_collection t False) 4 40)
          = Some (BTREE_OK, 3, 3, 3)"
  using op_counters_gated[of
      "the (do { t0 \<leftarrow> btree_create 4; insert_seq t0 [(1, 10), (2, 20), (3, 30)] })" 4 40 True]
  by (simp add: eval_simps cong: eval_congs)

section \<open>Structural invariants and validation\<close>

text \<open>
  \<^bold>\<open>C1.\<close> The claim: after \<^verbatim>\<open>btree_create\<close> and any sequence of inserts and deletes the
  structural invariants hold, so \<^verbatim>\<open>btree_validate\<close> returns true. The code does not keep
  them. With order 4, inserting 1, 3, 2 and then 2 again splits the full root on the last
  call, promotes 2, and then inserts 2 a second time into the leaf right of the separator
  2: \<^verbatim>\<open>btree_validate\<close> returns false. With order 5, inserting 2, 3, 4, 5, 1 (distinct
  keys) splits the root into a left leaf of 2 keys and a right leaf of 1 key, while
  \<^verbatim>\<open>min_keys\<close> is 2: \<^verbatim>\<open>btree_validate\<close> returns false again.
\<close>

theorem validate_fails_after_inserts:
  "do { t \<leftarrow> btree_create 4;
        t \<leftarrow> insert_seq t [(1, 10), (3, 30), (2, 20), (2, 21)];
        btree_validate t } = Some False
   \<and> do { t \<leftarrow> btree_create 5;
          t \<leftarrow> insert_seq t [(2, 20), (3, 30), (4, 40), (5, 50), (1, 10)];
          btree_validate t } = Some False
   \<and> do { t \<leftarrow> btree_create 5;
          t \<leftarrow> insert_seq t [(2, 20), (3, 30), (4, 40), (5, 50), (1, 10)];
          Some (min_keys t, root t) }
       = Some (2, Some (Node [4, 0, 0, 0] []
            [Some (Node [1, 2, 3, 5] [10, 20, 30, 50] [] 3 True),
             Some (Node [5, 0, 0, 0] [50, 0, 0, 0] [] 1 True), None, None, None] 1 False))"
  by (simp add: eval_simps cong: eval_congs)

section \<open>Cursor iteration\<close>

text \<open>
  \<^bold>\<open>C2.\<close> The claim: \<^verbatim>\<open>btree_cursor_first\<close> followed by \<^verbatim>\<open>btree_cursor_next\<close> until
  not-found yields every key of the tree, separators included. With order 4 and the keys
  1, 2, 3, 4 inserted, the root holds the separator 2 and \<^verbatim>\<open>btree_contains\<close> finds it, but
  the cursor yields 1, 3, 4 and then reports not-found: \<^verbatim>\<open>btree_cursor_next\<close> steps from
  the end of a leaf to the first key of the next leaf and never stops at a key of an
  internal node.
\<close>

theorem cursor_skips_separator:
  "do { t \<leftarrow> btree_create 4;
        t \<leftarrow> insert_seq t [(1, 10), (2, 20), (3, 30), (4, 40)];
        (s0, c) \<leftarrow> btree_cursor_first (btree_cursor_create t);
        (g1, k1, v1) \<leftarrow> btree_cursor_get c True False;
        (s1, c) \<leftarrow> btree_cursor_next c;
        (g2, k2, v2) \<leftarrow> btree_cursor_get c True False;
        (s2, c) \<leftarrow> btree_cursor_next c;
        (g3, k3, v3) \<leftarrow> btree_cursor_get c True False;
        (s3, c) \<leftarrow> btree_cursor_next c;
        (has2, t') \<leftarrow> btree_contains t 2;
        Some (map_option live_keys (root t), [s0, s1, s2, s3], [k1, k2, k3], valid c, has2) }
   = Some (Some [2], [BTREE_OK, BTREE_OK, BTREE_OK, BTREE_ERROR_NOT_FOUND],
           [Some 1, Some 3, Some 4], False, True)"
  by (simp add: eval_simps live_keys_def cong: eval_congs)

section \<open>Upsert\<close>

text \<open>
  \<^bold>\<open>C3.\<close> The claim: \<^verbatim>\<open>btree_insert(k, v1)\<close> followed by \<^verbatim>\<open>btree_insert(k, v2)\<close> leaves
  one entry for \<open>k\<close>, the second insert not changing the size. With order 4 and a tree
  holding 1 and 3, the first insert of 2 fills the root leaf (size 3); the second insert
  of 2 splits the root, promotes 2 into the new root, descends to the right of it and
  stores 2 again in the right leaf: the size is 4, the key 2 is in the tree twice, and a
  search for 2 stops at the root and writes no value.
\<close>

theorem upsert_duplicates_promoted_key:
  "do { t \<leftarrow> btree_create 4;
        t \<leftarrow> insert_seq t [(1, 10), (3, 30)];
        (s1, t1) \<leftarrow> btree_insert t 2 20;
        (s2, t2) \<leftarrow> btree_insert t1 2 21;
        (s3, v, t3) \<leftarrow> btree_search t2 2 True;
        Some ([s1, s2, s3], [btree_size t, btree_size t1, btree_size t2], v, root t2) }
   = Some ([BTREE_OK, BTREE_OK, BTREE_OK], [2, 3, 4], None,
           Some (Node [2, 0, 0] []
             [Some (Node [1, 2, 3] [10, 20, 30] [] 1 True),
              Some (Node [2, 3, 0] [21, 30, 0] [] 2 True), None, None] 1 False))"
  by (simp add: eval_simps cong: eval_congs)

section \<open>The height bound\<close>

lemma spec_height_bound_3_7: "spec_height_bound 3 7 = 3"
proof -
  have "\<lceil>real 3 / 2\<rceil> = (2::int)" by (simp add: ceiling_eq_iff)
  moreover have "log 2 ((real 7 + 1) / 2) = 2"
    using log_nat_power[of 2 2 2] by simp
  ultimately show ?thesis by (simp add: spec_height_bound_def)
qed

text \<open>
  \<^bold>\<open>C8.\<close> The claim: for every fanout \<open>m\<close> in 3..1024 and \<open>N\<close> distinct keys inserted into
  a fresh tree, the height is at most \<open>\<lceil>log\<^bsub>\<lceil>m/2\<rceil>\<^esub>((N+1)/2)\<rceil> + 1\<close>. With order 3
  and the seven distinct keys 7, 6, ..., 1 the tree has height 4, and the bound is 3: a
  split of a full node of order 3 leaves a right sibling with no key, below
  \<^verbatim>\<open>min_keys = 1\<close>.
\<close>

theorem height_exceeds_bound:
  "do { t \<leftarrow> btree_create 3;
        t \<leftarrow> insert_seq t [(7, 0), (6, 0), (5, 0), (4, 0), (3, 0), (2, 0), (1, 0)];
        h \<leftarrow> btree_height t;
        Some (h, btree_size t) } = Some (4, 7)
   \<and> spec_height_bound 3 7 = 3"
  by (simp add: eval_simps spec_height_bound_3_7 cong: eval_congs)

section \<open>Valid cursors\<close>

text \<open>
  \<^bold>\<open>C9.\<close> The claim: a cursor that \<^verbatim>\<open>btree_cursor_first\<close>, \<^verbatim>\<open>btree_cursor_last\<close> or
  \<^verbatim>\<open>btree_cursor_next\<close> leaves valid stands on a leaf at a position below \<^verbatim>\<open>num_keys\<close>, so
  \<^verbatim>\<open>btree_cursor_get\<close> succeeds on it. With order 3 and the keys 2, 3, 1 inserted, the
  right leaf of the root is empty. \<^verbatim>\<open>btree_cursor_first\<close> and one \<^verbatim>\<open>btree_cursor_next\<close>
  visit the keys 1 and 2 of the left leaf; the next \<^verbatim>\<open>btree_cursor_next\<close> returns ok with
  the cursor valid at position 0 of the empty leaf, and \<^verbatim>\<open>btree_cursor_get\<close> returns
  \<^verbatim>\<open>BTREE_ERROR_INVALID\<close>. \<^verbatim>\<open>btree_cursor_first\<close> tests \<^verbatim>\<open>num_keys > 0\<close> before it
  declares the cursor valid; \<^verbatim>\<open>btree_cursor_next\<close> does not.
\<close>

theorem cursor_valid_on_empty_leaf:
  "do { t \<leftarrow> btree_create 3;
        t \<leftarrow> insert_seq t [(2, 20), (3, 30), (1, 10)];
        (s1, c) \<leftarrow> btree_cursor_first (btree_cursor_create t);
        (s2, c) \<leftarrow> btree_cursor_next c;
        (s3, c) \<leftarrow> btree_cursor_next c;
        g \<leftarrow> btree_cursor_get c True True;
        Some ([s1, s2, s3], valid c, cur_node c, rd (positions c) (depth c), g) }
   = Some ([BTREE_OK, BTREE_OK, BTREE_OK], True, Some (Node [0, 0] [0, 0] [] 0 True), Some 0,
           BTREE_ERROR_INVALID, None, None)"
  by (simp add: eval_simps cong: eval_congs)

end
